theory Spec2Isabelle
  imports Main
begin

section \<open>The header ABI linker (header\_abi\_linker.cpp)\<close>

text \<open>
  A shallow embedding of \<^verbatim>\<open>header_abi_linker.cpp\<close>: the batch-claiming aggregation
  threads, the wildcard matcher built from the version script's glob patterns, the
  provenance and symbol filters of \<^verbatim>\<open>LinkDecl\<close>, and \<^verbatim>\<open>LinkAndDump\<close> and
  \<^verbatim>\<open>main\<close> around them. The readers, the dumper, the version script parser and the
  shared object parser live in other files; they appear here as the values they hand
  to the linker.
\<close>

subsection \<open>Declarations, keyed maps and graphs\<close>

text \<open>
  Of a declaration the linker reads only \<^verbatim>\<open>GetSourceFile()\<close>; the rest of a
  descriptor is carried along unread.
\<close>

record LinkableMessageIR =
  source_file :: string
  content :: string

text \<open>
  Modelled from the spec: \<^verbatim>\<open>abi_util::AbiElementMap<T>\<close> is declared in
  \<^verbatim>\<open>ir_representation.h\<close>. Each entity category is "a mapping from declaration key
  to a typed descriptor"; the model lists the entries in the map's iteration order, so
  that "each key at most once" is a property to prove and not one of the type.
\<close>

type_synonym 'a AbiElementMap = "(string \<times> 'a) list"

definition keys :: "'a AbiElementMap \<Rightarrow> string list" where
  "keys m = map fst m"

datatype category =
    RecordTypes | EnumTypes | FunctionTypes | BuiltinTypes | PointerTypes
  | RvalueReferenceTypes | LvalueReferenceTypes | ArrayTypes | QualifiedTypes
  | Functions | GlobalVariables

text \<open>
  A \<^verbatim>\<open>TextFormatToIRReader\<close> holds one keyed map per category
  (\<^verbatim>\<open>GetRecordTypes()\<close>, ..., \<^verbatim>\<open>GetFunctions()\<close>, \<^verbatim>\<open>GetGlobalVariables()\<close>).
\<close>

type_synonym TextFormatToIRReader = "category \<Rightarrow> LinkableMessageIR AbiElementMap"

definition CreateTextFormatToIRReader :: TextFormatToIRReader where
  "CreateTextFormatToIRReader = (\<lambda>c. [])"

text \<open>
  Modelled from the spec: \<^verbatim>\<open>TextFormatToIRReader::MergeGraphs\<close> is defined in
  \<^verbatim>\<open>ir_representation\<close>. "Merge of graph A into graph B is a per-category union by
  declaration key; if both contain the same key, either descriptor may be kept." The
  model keeps the descriptor that the destination already holds, as inserting into a
  keyed map does.
\<close>

definition emplace :: "'a AbiElementMap \<Rightarrow> string \<times> 'a \<Rightarrow> 'a AbiElementMap" where
  "emplace dst p = (if fst p \<in> set (keys dst) then dst else dst @ [p])"

definition MergeElements :: "'a AbiElementMap \<Rightarrow> 'a AbiElementMap \<Rightarrow> 'a AbiElementMap" where
  "MergeElements dst src = foldl emplace dst src"

definition MergeGraphs :: "TextFormatToIRReader \<Rightarrow> TextFormatToIRReader \<Rightarrow> TextFormatToIRReader" where
  "MergeGraphs dst addend = (\<lambda>c. MergeElements (dst c) (addend c))"

subsection \<open>Outcomes of a call\<close>

text \<open>
  A call either returns, or the process ends inside it: \<^verbatim>\<open>::exit(1)\<close> after a failed
  \<^verbatim>\<open>ReadDump\<close>, or a \<^verbatim>\<open>std::regex_error\<close> that nothing catches. \<open>Pending\<close> is
  the value of a run whose schedule ended before every aggregation thread had finished.
\<close>

datatype 'a outcome = Returns 'a | Exits int | Throws | Pending

subsection \<open>The aggregation threads\<close>

definition kSourcesPerBatchThread :: nat where
  "kSourcesPerBatchThread = 7"

text \<open>
  The inner \<^verbatim>\<open>for\<close> loop of \<^verbatim>\<open>DeDuplicateAbiElementsThread\<close> over the files it
  visits: a fresh reader decodes each file and is merged into the thread's local reader;
  a file that does not decode ends the process. \<open>read\<close> stands for
  \<^verbatim>\<open>ReadDump\<close> of a fresh reader, \<open>None\<close> for its failure.
\<close>

fun read_files ::
  "(string \<Rightarrow> TextFormatToIRReader option) \<Rightarrow> string list \<Rightarrow> TextFormatToIRReader
    \<Rightarrow> TextFormatToIRReader option" where
  "read_files read [] local_reader = Some local_reader"
| "read_files read (f # fs) local_reader =
     (case read f of
        None \<Rightarrow> None
      | Some reader \<Rightarrow> read_files read fs (MergeGraphs local_reader reader))"

text \<open>
  The files one pass of the \<^verbatim>\<open>while\<close> loop visits after claiming offset \<open>i\<close>:
  the iterator starts at \<^verbatim>\<open>begin_it\<close> and stops at \<^verbatim>\<open>begin_it + end\<close>, with
  \<^verbatim>\<open>end = std::min(i + kSourcesPerBatchThread, num_sources)\<close>.
\<close>

definition batch_indices :: "nat \<Rightarrow> nat \<Rightarrow> nat list" where
  "batch_indices i num_sources = [0 ..< min (i + kSourcesPerBatchThread) num_sources]"

definition batch_files :: "string list \<Rightarrow> nat \<Rightarrow> string list" where
  "batch_files dump_files i = map (\<lambda>j. dump_files ! j) (batch_indices i (length dump_files))"

record thread =
  local_reader :: TextFormatToIRReader
  decoded :: "nat list"
  finished :: bool

record shared =
  cnt :: nat
  greader :: TextFormatToIRReader
  threads :: "thread list"

text \<open>
  One pass of thread \<open>t\<close> through the body of \<^verbatim>\<open>while (1)\<close>. The
  \<^verbatim>\<open>fetch_add\<close> is atomic; the decoding that follows touches only the thread's own
  reader, and the final merge runs under \<^verbatim>\<open>greader_lock\<close>, so one pass is one step of
  the interleaving. The counter is a \<^verbatim>\<open>std::size_t\<close>; it stays below
  \<open>num_sources + 7 * (number of threads + 1)\<close>, far from wrapping for any vector of
  file names, and is a \<open>nat\<close> here. \<open>decoded\<close> is not a variable of the program: it
  records, in order, the indices of the files the thread has decoded.
\<close>

definition DeDuplicateAbiElementsThread_pass ::
  "(string \<Rightarrow> TextFormatToIRReader option) \<Rightarrow> string list \<Rightarrow> nat \<Rightarrow> shared \<Rightarrow> shared outcome" where
  "DeDuplicateAbiElementsThread_pass read dump_files t s =
     (if length (threads s) \<le> t \<or> finished (threads s ! t) then Returns s
      else
        let th = threads s ! t;
            i = cnt s;
            s1 = s\<lparr>cnt := i + kSourcesPerBatchThread\<rparr>;
            num_sources = length dump_files
        in if num_sources \<le> i
           then Returns (s1\<lparr>greader := MergeGraphs (greader s) (local_reader th),
                            threads := (threads s)[t := th\<lparr>finished := True\<rparr>]\<rparr>)
           else (case read_files read (batch_files dump_files i) (local_reader th) of
                   None \<Rightarrow> Exits 1
                 | Some l \<Rightarrow>
                     Returns (s1\<lparr>threads := (threads s)
                        [t := th\<lparr>local_reader := l,
                                 decoded := decoded th @ batch_indices i num_sources\<rparr>]\<rparr>)))"

text \<open>
  A schedule names the thread that makes the next pass. A pass of a finished thread,
  or of a thread that does not exist, changes nothing.
\<close>

fun run_threads ::
  "(string \<Rightarrow> TextFormatToIRReader option) \<Rightarrow> string list \<Rightarrow> nat list \<Rightarrow> shared \<Rightarrow> shared outcome" where
  "run_threads read dump_files [] s = Returns s"
| "run_threads read dump_files (t # ts) s =
     (case DeDuplicateAbiElementsThread_pass read dump_files t s of
        Returns s' \<Rightarrow> run_threads read dump_files ts s'
      | Exits n \<Rightarrow> Exits n
      | Throws \<Rightarrow> Throws
      | Pending \<Rightarrow> Pending)"

text \<open>
  The thread count of \<^verbatim>\<open>LinkAndDump\<close>: \<open>num_threads - 1\<close> threads are spawned
  (the loop starts at 1) and the calling thread works as well.
\<close>

definition num_threads :: "nat \<Rightarrow> nat \<Rightarrow> nat" where
  "num_threads max_threads num_sources =
     (if kSourcesPerBatchThread < num_sources
      then min (num_sources div kSourcesPerBatchThread) max_threads else 0)"

definition initial_shared :: "nat \<Rightarrow> nat \<Rightarrow> shared" where
  "initial_shared max_threads num_sources =
     \<lparr>cnt = 0, greader = CreateTextFormatToIRReader,
      threads = replicate (Suc (num_threads max_threads num_sources - 1))
        \<lparr>local_reader = CreateTextFormatToIRReader, decoded = [], finished = False\<rparr>\<rparr>"

text \<open>
  The aggregation part of \<^verbatim>\<open>LinkAndDump\<close>: all threads run
  \<^verbatim>\<open>DeDuplicateAbiElementsThread\<close> under the given schedule; once all have
  finished (the spawned ones are joined) the shared reader is the merged graph.
\<close>

definition DeDuplicateAbiElements ::
  "(string \<Rightarrow> TextFormatToIRReader option) \<Rightarrow> nat \<Rightarrow> nat list \<Rightarrow> string list
    \<Rightarrow> shared outcome" where
  "DeDuplicateAbiElements read max_threads schedule dump_files =
     (case run_threads read dump_files schedule
             (initial_shared max_threads (length dump_files)) of
        Returns s \<Rightarrow> if list_all finished (threads s) then Returns s else Pending
      | Exits n \<Rightarrow> Exits n
      | Throws \<Rightarrow> Throws
      | Pending \<Rightarrow> Pending)"

subsection \<open>Regular expressions of the standard library\<close>

text \<open>
  \<^verbatim>\<open>std::regex\<close> with its default ECMAScript grammar is code of the standard
  library. The model reads the part of the grammar that the expressions of the linker
  are made of: pattern characters, \<^verbatim>\<open>.\<close>, bracket expressions made of characters,
  ranges and class escapes, the quantifiers \<^verbatim>\<open>*\<close>, \<^verbatim>\<open>+\<close>, \<^verbatim>\<open>?\<close>, \<^verbatim>\<open>{n}\<close>,
  \<^verbatim>\<open>{n,}\<close> and \<^verbatim>\<open>{n,m}\<close>, each with an optional lazy mark \<^verbatim>\<open>?\<close>, alternation,
  capturing and non-capturing groups, the assertions \<^verbatim>\<open>^\<close>, \<^verbatim>\<open>$\<close>, \<^verbatim>\<open>\b\<close> and
  \<^verbatim>\<open>\B\<close>, the class escapes \<^verbatim>\<open>\d \D \w \W \s \S\<close>, the control escapes
  \<^verbatim>\<open>\t \n \v \f \r\<close>, and a backslash before a syntax character. Every other
  expression (a back reference, a lookahead, a named class inside a bracket
  expression, an empty bracket expression, a quantifier after a quantifier, an
  expression with an error) is left to the library, which is a parameter of the
  model. Only whether a match exists is observed (\<^verbatim>\<open>regex_search\<close> returning
  \<^verbatim>\<open>bool\<close>), so greedy and lazy matching need not be told apart. The limits of
  the library on the size of an expression are not part of the model.
\<close>

datatype class_item = Single char | Range char char | ClassEscape char

datatype regex =
    Empty | Chr char | AnyChar | CharClass bool "class_item list"
  | WordBoundary | NotWordBoundary | LineStart | LineEnd
  | Seq regex regex | Alt regex regex | Star regex | Repeat nat "nat option" regex
  | Group regex

definition backslash :: char where
  "backslash = CHR 0x5C"

definition is_digit :: "char \<Rightarrow> bool" where
  "is_digit c = (let n = (of_char c :: nat) in 48 \<le> n \<and> n \<le> 57)"

definition is_word_char :: "char \<Rightarrow> bool" where
  "is_word_char c =
     (let n = (of_char c :: nat)
      in (48 \<le> n \<and> n \<le> 57) \<or> (65 \<le> n \<and> n \<le> 90) \<or> (97 \<le> n \<and> n \<le> 122) \<or> n = 95)"

definition is_space :: "char \<Rightarrow> bool" where
  "is_space c = (let n = (of_char c :: nat) in n = 32 \<or> (9 \<le> n \<and> n \<le> 13))"

definition is_line_terminator :: "char \<Rightarrow> bool" where
  "is_line_terminator c = (c = CHR 0x0A \<or> c = CHR 0x0D)"

text \<open>
  Membership of a character in one item of a bracket expression: a character, a range
  of character codes, or a class escape named by its letter.
\<close>

fun in_class_item :: "char \<Rightarrow> class_item \<Rightarrow> bool" where
  "in_class_item c (Single a) = (c = a)"
| "in_class_item c (Range a b) =
     ((of_char a :: nat) \<le> of_char c \<and> (of_char c :: nat) \<le> of_char b)"
| "in_class_item c (ClassEscape e) =
     (if e = CHR ''d'' then is_digit c
      else if e = CHR ''D'' then \<not> is_digit c
      else if e = CHR ''w'' then is_word_char c
      else if e = CHR ''W'' then \<not> is_word_char c
      else if e = CHR ''s'' then is_space c
      else if e = CHR ''S'' then \<not> is_space c
      else False)"

text \<open>
  Position \<open>i\<close> of \<open>s\<close> (between character \<open>i - 1\<close> and character \<open>i\<close>) is a word
  boundary when exactly one of its two sides is a word character; outside the string
  there is none.
\<close>

definition at_word_boundary :: "string \<Rightarrow> nat \<Rightarrow> bool" where
  "at_word_boundary s i =
     ((0 < i \<and> i \<le> length s \<and> is_word_char (s ! (i - 1))) \<noteq>
      (i < length s \<and> is_word_char (s ! i)))"

text \<open>
  \<open>ends r s P\<close> lists the positions where a match of \<open>r\<close> in \<open>s\<close> can end when it
  starts at one of the positions \<open>P\<close>. A position is at most \<open>length s\<close>, so
  \<open>length s\<close> rounds reach every end of an unbounded repetition.
\<close>

fun ends :: "regex \<Rightarrow> string \<Rightarrow> nat list \<Rightarrow> nat list" where
  "ends Empty s P = P"
| "ends (Chr c) s P = map Suc (filter (\<lambda>i. i < length s \<and> s ! i = c) P)"
| "ends AnyChar s P = map Suc (filter (\<lambda>i. i < length s \<and> \<not> is_line_terminator (s ! i)) P)"
| "ends (CharClass negated items) s P =
     map Suc (filter (\<lambda>i. i < length s \<and> (list_ex (in_class_item (s ! i)) items \<noteq> negated)) P)"
| "ends WordBoundary s P = filter (at_word_boundary s) P"
| "ends NotWordBoundary s P = filter (\<lambda>i. \<not> at_word_boundary s i) P"
| "ends LineStart s P = filter (\<lambda>i. i = 0) P"
| "ends LineEnd s P = filter (\<lambda>i. i = length s) P"
| "ends (Seq a b) s P = ends b s (ends a s P)"
| "ends (Alt a b) s P = remdups (ends a s P @ ends b s P)"
| "ends (Star a) s P = ((\<lambda>Q. remdups (P @ ends a s Q)) ^^ length s) P"
| "ends (Repeat n None a) s P =
     ((\<lambda>Q. remdups (((\<lambda>Q. ends a s Q) ^^ n) P @ ends a s Q)) ^^ length s)
       (((\<lambda>Q. ends a s Q) ^^ n) P)"
| "ends (Repeat n (Some m) a) s P =
     remdups (concat (map (\<lambda>i. ((\<lambda>Q. ends a s Q) ^^ i) P) [n ..< Suc m]))"
| "ends (Group a) s P = ends a s P"

text \<open>
  The parser reads the expression one character at a time. It keeps one frame per
  open group (whether the group captures, the alternatives already closed by \<^verbatim>\<open>|\<close>,
  and the terms of the current alternative, last first) and a mode that tells what
  the next character belongs to. Each term carries its kind: an atom, which a
  quantifier may follow; a quantified atom, which a lazy mark may follow; or a term
  that nothing may follow (an assertion, a lazy quantified atom). \<open>None\<close> says that
  the expression is outside the part of the grammar that the model reads.
\<close>

datatype kind = Atom | Quantified | Final

type_synonym frame = "bool \<times> regex list \<times> (regex \<times> kind) list"

fun seq_of :: "regex list \<Rightarrow> regex" where
  "seq_of [] = Empty"
| "seq_of [r] = r"
| "seq_of (r # rs) = Seq r (seq_of rs)"

fun alt_of :: "regex list \<Rightarrow> regex" where
  "alt_of [] = Empty"
| "alt_of [r] = r"
| "alt_of (r # rs) = Alt r (alt_of rs)"

fun close_alternative :: "frame \<Rightarrow> regex list" where
  "close_alternative (capturing, alts, ts) = alts @ [seq_of (rev (map fst ts))]"

fun disjunction :: "frame \<Rightarrow> regex" where
  "disjunction (capturing, alts, ts) =
     (if capturing then Group (alt_of (close_alternative (capturing, alts, ts)))
      else alt_of (close_alternative (capturing, alts, ts)))"

definition syntax_characters :: "char list" where
  "syntax_characters = backslash # ''^$.*+?()[]{}|''"

text \<open>
  Inside a bracket expression the parser remembers whether the last item was a
  character that may start a range, the start of a range followed by \<^verbatim>\<open>-\<close>, or a
  \<^verbatim>\<open>-\<close> that can only be the last character of the expression.
\<close>

datatype class_state = NoChar | LastChar char | RangeFrom char | LastDash

datatype mode =
    Normal | Escape | Opened | OpenedQuestion
  | ClassStart | InClass bool "class_item list" class_state | ClassEscaped bool "class_item list"
  | BraceMin "nat option" | BraceMax nat "nat option"

type_synonym parser = "frame list \<times> mode"

fun push_term :: "regex \<times> kind \<Rightarrow> frame list \<Rightarrow> parser option" where
  "push_term t [] = None"
| "push_term t ((capturing, alts, ts) # st) = Some ((capturing, alts, t # ts) # st, Normal)"

fun quantify :: "(regex \<Rightarrow> regex) \<Rightarrow> frame list \<Rightarrow> parser option" where
  "quantify q ((capturing, alts, (r, Atom) # ts) # st) =
     Some ((capturing, alts, (q r, Quantified) # ts) # st, Normal)"
| "quantify q st = None"

text \<open>
  A \<^verbatim>\<open>?\<close> makes an atom optional, and makes a quantified atom lazy, which does not
  change whether a match exists.
\<close>

fun question_mark :: "frame list \<Rightarrow> parser option" where
  "question_mark ((capturing, alts, (r, Atom) # ts) # st) =
     Some ((capturing, alts, (Alt r Empty, Quantified) # ts) # st, Normal)"
| "question_mark ((capturing, alts, (r, Quantified) # ts) # st) =
     Some ((capturing, alts, (r, Final) # ts) # st, Normal)"
| "question_mark st = None"

definition escape :: "char \<Rightarrow> (regex \<times> kind) option" where
  "escape d =
     (if d = CHR ''b'' then Some (WordBoundary, Final)
      else if d = CHR ''B'' then Some (NotWordBoundary, Final)
      else if d \<in> set ''dDwWsS'' then Some (CharClass False [ClassEscape d], Atom)
      else if d = CHR ''t'' then Some (Chr (CHR 0x09), Atom)
      else if d = CHR ''n'' then Some (Chr (CHR 0x0A), Atom)
      else if d = CHR ''v'' then Some (Chr (CHR 0x0B), Atom)
      else if d = CHR ''f'' then Some (Chr (CHR 0x0C), Atom)
      else if d = CHR ''r'' then Some (Chr (CHR 0x0D), Atom)
      else if d \<in> set syntax_characters \<or> d \<in> set ''/-'' then Some (Chr d, Atom)
      else None)"

definition parse_char :: "char \<Rightarrow> frame list \<Rightarrow> parser option" where
  "parse_char c st =
     (if c = backslash then Some (st, Escape)
      else if c = CHR ''('' then Some (st, Opened)
      else if c = CHR '')'' then
        (case st of
           fr # fr' # rest \<Rightarrow> push_term (disjunction fr, Atom) (fr' # rest)
         | _ \<Rightarrow> None)
      else if c = CHR ''|'' then
        (case st of
           (capturing, alts, ts) # rest \<Rightarrow>
             Some ((capturing, close_alternative (capturing, alts, ts), []) # rest, Normal)
         | [] \<Rightarrow> None)
      else if c = CHR ''*'' then quantify Star st
      else if c = CHR ''+'' then quantify (\<lambda>r. Seq r (Star r)) st
      else if c = CHR ''?'' then question_mark st
      else if c = CHR ''{'' then Some (st, BraceMin None)
      else if c = CHR ''['' then Some (st, ClassStart)
      else if c = CHR ''.'' then push_term (AnyChar, Atom) st
      else if c = CHR ''^'' then push_term (LineStart, Final) st
      else if c = CHR ''$'' then push_term (LineEnd, Final) st
      else if c \<in> set '']}'' then None
      else push_term (Chr c, Atom) st)"

definition class_char ::
  "char \<Rightarrow> frame list \<Rightarrow> bool \<Rightarrow> class_item list \<Rightarrow> class_state \<Rightarrow> parser option" where
  "class_char c st negated items cs =
     (if c = CHR '']'' then
        (if items = [] \<and> cs = NoChar then None
         else push_term
          (CharClass negated
             (items @ (case cs of
                         NoChar \<Rightarrow> []
                       | LastChar a \<Rightarrow> [Single a]
                       | RangeFrom a \<Rightarrow> [Single a, Single (CHR ''-'')]
                       | LastDash \<Rightarrow> [Single (CHR ''-'')])), Atom) st)
      else if c = CHR ''['' then None
      else if c = backslash then
        (case cs of
           NoChar \<Rightarrow> Some (st, ClassEscaped negated items)
         | LastChar a \<Rightarrow> Some (st, ClassEscaped negated (items @ [Single a]))
         | _ \<Rightarrow> None)
      else if c = CHR ''-'' then
        (case cs of
           NoChar \<Rightarrow>
             if items = [] then Some (st, InClass negated [Single c] NoChar)
             else Some (st, InClass negated items LastDash)
         | LastChar a \<Rightarrow> Some (st, InClass negated items (RangeFrom a))
         | _ \<Rightarrow> None)
      else
        (case cs of
           NoChar \<Rightarrow> Some (st, InClass negated items (LastChar c))
         | LastChar a \<Rightarrow> Some (st, InClass negated (items @ [Single a]) (LastChar c))
         | RangeFrom a \<Rightarrow>
             if (of_char a :: nat) \<le> of_char c \<and> (of_char c :: nat) < 128
             then Some (st, InClass negated (items @ [Range a c]) NoChar)
             else None
         | LastDash \<Rightarrow> None))"

definition class_escape :: "char \<Rightarrow> class_item option" where
  "class_escape d =
     (if d \<in> set ''dDwWsS'' then Some (ClassEscape d)
      else if d \<in> set syntax_characters \<or> d \<in> set ''/-'' then Some (Single d)
      else None)"

definition digit_value :: "char \<Rightarrow> nat" where
  "digit_value c = of_char c - 48"

text \<open>Repetition counts are read up to this bound.\<close>

definition brace_limit :: nat where
  "brace_limit = 1000"

fun step :: "char \<Rightarrow> parser \<Rightarrow> parser option" where
  "step c (st, Normal) = parse_char c st"
| "step c (st, Escape) =
     (case escape c of None \<Rightarrow> None | Some t \<Rightarrow> push_term t st)"
| "step c (st, Opened) =
     (if c = CHR ''?'' then Some (st, OpenedQuestion)
      else parse_char c ((True, [], []) # st))"
| "step c (st, OpenedQuestion) =
     (if c = CHR '':'' then Some ((False, [], []) # st, Normal) else None)"
| "step c (st, ClassStart) =
     (if c = CHR ''^'' then Some (st, InClass True [] NoChar)
      else class_char c st False [] NoChar)"
| "step c (st, InClass negated items cs) = class_char c st negated items cs"
| "step c (st, ClassEscaped negated items) =
     (case class_escape c of
        None \<Rightarrow> None
      | Some item \<Rightarrow> Some (st, InClass negated (items @ [item]) NoChar))"
| "step c (st, BraceMin n) =
     (if is_digit c then
        (let v = 10 * (case n of None \<Rightarrow> 0 | Some k \<Rightarrow> k) + digit_value c
         in if v \<le> brace_limit then Some (st, BraceMin (Some v)) else None)
      else
        (case n of
           None \<Rightarrow> None
         | Some k \<Rightarrow>
             if c = CHR '','' then Some (st, BraceMax k None)
             else if c = CHR ''}'' then quantify (Repeat k (Some k)) st
             else None))"
| "step c (st, BraceMax k m) =
     (if is_digit c then
        (let v = 10 * (case m of None \<Rightarrow> 0 | Some j \<Rightarrow> j) + digit_value c
         in if v \<le> brace_limit then Some (st, BraceMax k (Some v)) else None)
      else if c = CHR ''}'' then
        (case m of
           None \<Rightarrow> quantify (Repeat k None) st
         | Some j \<Rightarrow> if k \<le> j then quantify (Repeat k (Some j)) st else None)
      else None)"

fun parse_from :: "parser \<Rightarrow> string \<Rightarrow> regex option" where
  "parse_from p [] =
     (case p of
        ([fr], Normal) \<Rightarrow> Some (alt_of (close_alternative fr))
      | _ \<Rightarrow> None)"
| "parse_from p (c # cs) =
     (case step c p of None \<Rightarrow> None | Some p' \<Rightarrow> parse_from p' cs)"

definition parse_regex :: "string \<Rightarrow> regex option" where
  "parse_regex str = parse_from ([(False, [], [])], Normal) str"

text \<open>
  A \<^verbatim>\<open>std::regex\<close> value: the default-constructed one, which matches nothing; one
  built from an expression that the model reads; or one that the library built from
  another expression, of which only what \<^verbatim>\<open>regex_search\<close> answers is known.
  \<open>library str\<close> is \<open>None\<close> when the constructor throws \<^verbatim>\<open>std::regex_error\<close> for
  the expression \<open>str\<close>.
\<close>

datatype std_regex = DefaultRegex | Compiled regex | Library "string \<Rightarrow> bool"

definition std_regex_of ::
  "(string \<Rightarrow> (string \<Rightarrow> bool) option) \<Rightarrow> string \<Rightarrow> std_regex option" where
  "std_regex_of library str =
     (case parse_regex str of
        Some r \<Rightarrow> Some (Compiled r)
      | None \<Rightarrow> map_option Library (library str))"

fun regex_search :: "string \<Rightarrow> std_regex \<Rightarrow> bool" where
  "regex_search s DefaultRegex = False"
| "regex_search s (Compiled r) = (ends r s [0 ..< Suc (length s)] \<noteq> [])"
| "regex_search s (Library f) = f s"

subsection \<open>The wildcard matcher\<close>

definition QueryRegexMatches :: "string set \<Rightarrow> std_regex \<Rightarrow> string \<Rightarrow> bool \<times> string set" where
  "QueryRegexMatches regex_matched_link_set vs_regex symbol =
     (if symbol \<in> regex_matched_link_set then (False, regex_matched_link_set)
      else if regex_search symbol vs_regex then (True, insert symbol regex_matched_link_set)
      else (False, regex_matched_link_set))"

text \<open>
  Modelled from the spec: \<^verbatim>\<open>abi_util::FindAndReplace\<close> is defined in
  \<^verbatim>\<open>header_abi_util.h\<close>. Its one call, \<^verbatim>\<open>FindAndReplace(*it, "\\*", ".*")\<close>, is
  what makes the matcher "translate \<^verbatim>\<open>*\<close> to match any substring": the expression
  to find is the escaped star, that is the character \<^verbatim>\<open>*\<close> itself, and the model
  takes the character to find.
\<close>

definition FindAndReplace :: "string \<Rightarrow> char \<Rightarrow> string \<Rightarrow> string" where
  "FindAndReplace candidate_str find_chr replace_str =
     concat (map (\<lambda>c. if c = find_chr then replace_str else [c]) candidate_str)"

text \<open>
  The expression \<^verbatim>\<open>CreateRegexMatchExprFromSet\<close> builds in
  \<^verbatim>\<open>all_regex_match_str\<close>, over the set's elements in iteration order.
\<close>

fun all_regex_match_str :: "string list \<Rightarrow> string" where
  "all_regex_match_str [] = []"
| "all_regex_match_str (p # ps) =
     (''('' @ [backslash] @ ''b'' @ FindAndReplace p (CHR ''*'') ''.*'' @ [backslash] @ ''b)'')
     @ (if ps \<noteq> [] then ''|'' else [])
     @ all_regex_match_str ps"

definition CreateRegexMatchExprFromSet ::
  "(string \<Rightarrow> (string \<Rightarrow> bool) option) \<Rightarrow> string list \<Rightarrow> std_regex option" where
  "CreateRegexMatchExprFromSet library link_set =
     (if all_regex_match_str link_set = [] then Some DefaultRegex
      else std_regex_of library (all_regex_match_str link_set))"

subsection \<open>Glob patterns\<close>


text \<open>
  The reading of a pattern as the regular expression it is copied into, for a pattern
  made of \<^verbatim>\<open>*\<close>, \<^verbatim>\<open>.\<close> and characters that have no meaning in a regular
  expression: \<^verbatim>\<open>*\<close>, which becomes \<^verbatim>\<open>.*\<close>, stands for any run of characters other
  than line terminators, \<^verbatim>\<open>.\<close> for one such character, and every other character
  for itself.
\<close>

fun dot_star_match :: "string \<Rightarrow> string \<Rightarrow> bool" where
  "dot_star_match [] w = (w = [])"
| "dot_star_match (c # p) [] = (c = CHR ''*'' \<and> dot_star_match p [])"
| "dot_star_match (c # p) (d # w) =
     (if c = CHR ''*''
        then dot_star_match p (d # w) \<or> (\<not> is_line_terminator d \<and> dot_star_match (c # p) w)
      else if c = CHR ''.'' then \<not> is_line_terminator d \<and> dot_star_match p w
      else c = d \<and> dot_star_match p w)"

text \<open>
  The term that the parser builds for one character of such a pattern, and the
  regular expression that it builds for the pattern between \<^verbatim>\<open>(\b\<close> and \<^verbatim>\<open>\b)\<close>.
\<close>

definition glob_item :: "char \<Rightarrow> regex" where
  "glob_item c =
     (if c = CHR ''*'' then Star AnyChar else if c = CHR ''.'' then AnyChar else Chr c)"

definition glob_kind :: "char \<Rightarrow> kind" where
  "glob_kind c = (if c = CHR ''*'' then Quantified else Atom)"

definition pattern_regex :: "string \<Rightarrow> regex" where
  "pattern_regex p = Group (seq_of (WordBoundary # map glob_item p @ [WordBoundary]))"

text \<open>
  The parser state that an expression leads to, the terms of an expression that
  consists of one alternative, and the stack of the parser when the expression
  stands between \<^verbatim>\<open>(\b\<close> and \<^verbatim>\<open>\b)\<close> above the frames \<open>below\<close>.
\<close>

fun run :: "parser \<Rightarrow> string \<Rightarrow> parser option" where
  "run p [] = Some p"
| "run p (c # cs) = (case step c p of None \<Rightarrow> None | Some p' \<Rightarrow> run p' cs)"

definition terms_of :: "string \<Rightarrow> regex list" where
  "terms_of str =
     (case run ([(False, [], [])], Normal) str of
        Some ([(capturing, alts, ts)], Normal) \<Rightarrow> rev (map fst ts)
      | _ \<Rightarrow> [])"

fun inside :: "frame list \<Rightarrow> frame list \<Rightarrow> frame list" where
  "inside below [] = []"
| "inside below [(capturing, alts, ts)] = (True, alts, ts @ [(WordBoundary, Final)]) # below"
| "inside below (fr # fr' # st) = fr # inside below (fr' # st)"

subsection \<open>Command line options and the collaborators\<close>

record options =
  dump_files :: "string list"
  linked_dump :: string
  exported_header_dirs :: "string list"
  version_script :: string
  api :: string
  arch :: string
  no_filter :: bool
  so_file :: string

type_synonym ElfSymbolIR = string

text \<open>
  What \<^verbatim>\<open>ParseSoFile\<close> meets: no binary, a binary that is no object file, no parser
  for it, or the two symbol tables.
\<close>

datatype so_file_contents =
    NoBinary | NotAnObjectFile | NoSoFileParser
  | SoSymbols "ElfSymbolIR AbiElementMap" "ElfSymbolIR AbiElementMap"

text \<open>
  What a parsed version script holds: the exact functions and global variables, and
  the two sets of glob patterns in their iteration order.
\<close>

record version_script_contents =
  GetFunctions :: "ElfSymbolIR AbiElementMap"
  GetGlobVars :: "ElfSymbolIR AbiElementMap"
  GetFunctionRegexs :: "string list"
  GetGlobVarRegexs :: "string list"

text \<open>
  Modelled from the spec: \<^verbatim>\<open>abi_util::IRDumper\<close> is declared in
  \<^verbatim>\<open>ir_representation.h\<close>; it is the "write sink that accepts already-filtered
  entities", \<^verbatim>\<open>Sink.add(declaration) -> Result<(), SinkWriteError>\<close>. The model keeps
  what the sink has accepted, in order.
\<close>

record IRDumper =
  elf_symbols :: "ElfSymbolIR list"
  linkable_messages :: "LinkableMessageIR list"

definition CreateIRDumper :: IRDumper where
  "CreateIRDumper = \<lparr>elf_symbols = [], linkable_messages = []\<rparr>"

text \<open>
  The code of the other files, as the linker sees it: the header collector, the two
  export parsers (\<open>None\<close> for a version script that does not parse), the dump decoder
  of a reader created for a set of exported headers, whether the sink takes an entity
  in its present state, whether it serialises, the number of hardware threads, and
  the regular expressions of the standard library that the model does not read.
\<close>

record collaborators =
  CollectAllExportedHeaders :: "string list \<Rightarrow> string set"
  SoFileParser :: "string \<Rightarrow> so_file_contents"
  VersionScriptParser :: "string \<Rightarrow> string \<Rightarrow> string \<Rightarrow> version_script_contents option"
  ReadDump :: "string set \<Rightarrow> string \<Rightarrow> TextFormatToIRReader option"
  AddElfSymbolMessageIR :: "IRDumper \<Rightarrow> ElfSymbolIR \<Rightarrow> bool"
  AddLinkableMessageIR :: "IRDumper \<Rightarrow> LinkableMessageIR \<Rightarrow> bool"
  Dump :: "IRDumper \<Rightarrow> bool"
  hardware_concurrency :: nat
  library_regex :: "string \<Rightarrow> (string \<Rightarrow> bool) option"

subsection \<open>The linker\<close>

text \<open>
  The members of \<^verbatim>\<open>HeaderAbiLinker\<close> that are not references to the options
  (the names lose the trailing underscore).
\<close>

record HeaderAbiLinker =
  exported_headers :: "string set"
  function_decl_map :: "ElfSymbolIR AbiElementMap"
  globvar_decl_map :: "ElfSymbolIR AbiElementMap"
  functions_regex_matched_set :: "string set"
  functions_vs_regex :: std_regex
  globvars_regex_matched_set :: "string set"
  globvars_vs_regex :: std_regex

definition new_HeaderAbiLinker :: HeaderAbiLinker where
  "new_HeaderAbiLinker =
     \<lparr>exported_headers = {}, function_decl_map = [], globvar_decl_map = [],
      functions_regex_matched_set = {}, functions_vs_regex = DefaultRegex,
      globvars_regex_matched_set = {}, globvars_vs_regex = DefaultRegex\<rparr>"

text \<open>The template \<^verbatim>\<open>::AddElfSymbols\<close>: it stops at the first symbol the sink refuses.\<close>

fun AddElfSymbols_of ::
  "collaborators \<Rightarrow> IRDumper \<Rightarrow> ElfSymbolIR AbiElementMap \<Rightarrow> bool \<times> IRDumper" where
  "AddElfSymbols_of env dst [] = (True, dst)"
| "AddElfSymbols_of env dst (symbol # symbols) =
     (if \<not> AddElfSymbolMessageIR env dst (snd symbol) then (False, dst)
      else AddElfSymbols_of env (dst\<lparr>elf_symbols := elf_symbols dst @ [snd symbol]\<rparr>) symbols)"

definition AddElfSymbols :: "collaborators \<Rightarrow> HeaderAbiLinker \<Rightarrow> IRDumper \<Rightarrow> bool \<times> IRDumper" where
  "AddElfSymbols env this ir_dumper =
     (case AddElfSymbols_of env ir_dumper (function_decl_map this) of
        (False, d) \<Rightarrow> (False, d)
      | (True, d) \<Rightarrow> AddElfSymbols_of env d (globvar_decl_map this))"

text \<open>
  \<^verbatim>\<open>LinkDecl\<close>. The symbol filter is a closure over the linker and may record a
  match in it, so it takes the linker and returns it. An entity the sink refuses ends
  the loop with \<^verbatim>\<open>false\<close> (and the line "Failed to add element to linked dump").
\<close>

fun LinkDecl ::
  "collaborators \<Rightarrow> HeaderAbiLinker \<Rightarrow> IRDumper \<Rightarrow> LinkableMessageIR AbiElementMap
    \<Rightarrow> (string \<Rightarrow> HeaderAbiLinker \<Rightarrow> bool \<times> HeaderAbiLinker)
    \<Rightarrow> bool \<times> IRDumper \<times> HeaderAbiLinker" where
  "LinkDecl env this dst [] symbol_filter = (True, dst, this)"
| "LinkDecl env this dst (element # src) symbol_filter =
     (if exported_headers this \<noteq> {} \<and> source_file (snd element) \<noteq> [] \<and>
         source_file (snd element) \<notin> exported_headers this
      then LinkDecl env this dst src symbol_filter
      else
        (case symbol_filter (fst element) this of
           (False, this') \<Rightarrow> LinkDecl env this' dst src symbol_filter
         | (True, this') \<Rightarrow>
             if \<not> AddLinkableMessageIR env dst (snd element) then (False, dst, this')
             else LinkDecl env this'
                    (dst\<lparr>linkable_messages := linkable_messages dst @ [snd element]\<rparr>)
                    src symbol_filter))"

definition no_filter_lambda :: "string \<Rightarrow> HeaderAbiLinker \<Rightarrow> bool \<times> HeaderAbiLinker" where
  "no_filter_lambda symbol this = (True, this)"

definition type_categories :: "category list" where
  "type_categories =
     [RecordTypes, EnumTypes, FunctionTypes, BuiltinTypes, PointerTypes,
      RvalueReferenceTypes, LvalueReferenceTypes, ArrayTypes, QualifiedTypes]"

text \<open>
  \<^verbatim>\<open>LinkTypes\<close> is a chain of \<^verbatim>\<open>&&\<close> over the nine type categories in the order
  above: the first \<^verbatim>\<open>LinkDecl\<close> that fails ends it.
\<close>

fun LinkDecl_chain ::
  "collaborators \<Rightarrow> HeaderAbiLinker \<Rightarrow> IRDumper \<Rightarrow> TextFormatToIRReader \<Rightarrow> category list
    \<Rightarrow> bool \<times> IRDumper \<times> HeaderAbiLinker" where
  "LinkDecl_chain env this dst reader [] = (True, dst, this)"
| "LinkDecl_chain env this dst reader (c # cs) =
     (case LinkDecl env this dst (reader c) no_filter_lambda of
        (False, dst', this') \<Rightarrow> (False, dst', this')
      | (True, dst', this') \<Rightarrow> LinkDecl_chain env this' dst' reader cs)"

definition LinkTypes ::
  "collaborators \<Rightarrow> HeaderAbiLinker \<Rightarrow> TextFormatToIRReader \<Rightarrow> IRDumper
    \<Rightarrow> bool \<times> IRDumper \<times> HeaderAbiLinker" where
  "LinkTypes env this reader ir_dumper = LinkDecl_chain env this ir_dumper reader type_categories"

definition functions_symbol_filter :: "string \<Rightarrow> HeaderAbiLinker \<Rightarrow> bool \<times> HeaderAbiLinker" where
  "functions_symbol_filter linker_set_key this =
     (if linker_set_key \<in> set (keys (function_decl_map this)) then (True, this)
      else
        (case QueryRegexMatches (functions_regex_matched_set this) (functions_vs_regex this)
                linker_set_key of
           (b, matched) \<Rightarrow> (b, this\<lparr>functions_regex_matched_set := matched\<rparr>)))"

definition LinkFunctions ::
  "collaborators \<Rightarrow> HeaderAbiLinker \<Rightarrow> TextFormatToIRReader \<Rightarrow> IRDumper
    \<Rightarrow> bool \<times> IRDumper \<times> HeaderAbiLinker" where
  "LinkFunctions env this reader ir_dumper =
     LinkDecl env this ir_dumper (reader Functions) functions_symbol_filter"

definition globvars_symbol_filter :: "string \<Rightarrow> HeaderAbiLinker \<Rightarrow> bool \<times> HeaderAbiLinker" where
  "globvars_symbol_filter linker_set_key this =
     (if linker_set_key \<in> set (keys (globvar_decl_map this)) then (True, this)
      else
        (case QueryRegexMatches (globvars_regex_matched_set this) (globvars_vs_regex this)
                linker_set_key of
           (b, matched) \<Rightarrow> (b, this\<lparr>globvars_regex_matched_set := matched\<rparr>)))"

definition LinkGlobalVars ::
  "collaborators \<Rightarrow> HeaderAbiLinker \<Rightarrow> TextFormatToIRReader \<Rightarrow> IRDumper
    \<Rightarrow> bool \<times> IRDumper \<times> HeaderAbiLinker" where
  "LinkGlobalVars env this reader ir_dumper =
     LinkDecl env this ir_dumper (reader GlobalVariables) globvars_symbol_filter"

text \<open>
  The two export parsers return whether they succeeded, the linker, and the lines they
  write to \<^verbatim>\<open>llvm::errs()\<close>. Building a \<^verbatim>\<open>std::regex\<close> may throw.
\<close>

definition ParseVersionScriptFiles ::
  "collaborators \<Rightarrow> options \<Rightarrow> HeaderAbiLinker \<Rightarrow> (bool \<times> HeaderAbiLinker \<times> string list) outcome" where
  "ParseVersionScriptFiles env opts this =
     (case VersionScriptParser env (version_script opts) (arch opts) (api opts) of
        None \<Rightarrow> Returns (False, this, [''Failed to parse version script''])
      | Some vs \<Rightarrow>
          (case CreateRegexMatchExprFromSet (library_regex env) (GetFunctionRegexs vs) of
             None \<Rightarrow> Throws
           | Some fre \<Rightarrow>
               (case CreateRegexMatchExprFromSet (library_regex env) (GetGlobVarRegexs vs) of
                  None \<Rightarrow> Throws
                | Some gre \<Rightarrow>
                    Returns (True,
                      this\<lparr>function_decl_map := GetFunctions vs,
                           globvar_decl_map := GetGlobVars vs,
                           functions_vs_regex := fre,
                           globvars_vs_regex := gre\<rparr>, []))))"

definition ParseSoFile ::
  "collaborators \<Rightarrow> options \<Rightarrow> HeaderAbiLinker \<Rightarrow> bool \<times> HeaderAbiLinker \<times> string list" where
  "ParseSoFile env opts this =
     (case SoFileParser env (so_file opts) of
        NoBinary \<Rightarrow> (False, this, [''Couldn't really create object File ''])
      | NotAnObjectFile \<Rightarrow> (False, this, [''Not an object file''])
      | NoSoFileParser \<Rightarrow> (False, this, [''Couldn't create soFile Parser''])
      | SoSymbols fs gs \<Rightarrow> (True, this\<lparr>function_decl_map := fs, globvar_decl_map := gs\<rparr>, []))"

text \<open>
  What \<^verbatim>\<open>LinkAndDump\<close> leaves behind: its return value, the lines written to
  \<^verbatim>\<open>llvm::errs()\<close>, the linker, and the dumper once it has been created.
\<close>

record link_result =
  returned :: bool
  errs :: "string list"
  linker :: HeaderAbiLinker
  ir_dumper :: "IRDumper option"

text \<open>
  The first statement of \<^verbatim>\<open>LinkAndDump\<close>: the exported symbols come from the shared
  object when \<^verbatim>\<open>so_file_\<close> is not empty, and from the version script otherwise. Only
  the first branch assigns \<^verbatim>\<open>exported_headers_\<close>.
\<close>

definition resolve_exports ::
  "collaborators \<Rightarrow> options \<Rightarrow> HeaderAbiLinker \<Rightarrow> (bool \<times> HeaderAbiLinker \<times> string list) outcome" where
  "resolve_exports env opts this =
     (if so_file opts \<noteq> [] then
        (case ParseSoFile env opts
                (this\<lparr>exported_headers :=
                   CollectAllExportedHeaders env (exported_header_dirs opts)\<rparr>) of
           (False, this', e) \<Rightarrow> Returns (False, this', e @ [''Couldn't parse so file''])
         | (True, this', e) \<Rightarrow> Returns (True, this', e))
      else
        (case ParseVersionScriptFiles env opts this of
           Returns (False, this', e) \<Rightarrow>
             Returns (False, this', e @ [''Failed to parse stub files for exported symbols''])
         | Returns (True, this', e) \<Rightarrow> Returns (True, this', e)
         | Exits n \<Rightarrow> Exits n
         | Throws \<Rightarrow> Throws
         | Pending \<Rightarrow> Pending))"

text \<open>
  The three linking calls of \<^verbatim>\<open>LinkAndDump\<close>, joined by \<^verbatim>\<open>||\<close> on their
  negations: types, then functions, then global variables.
\<close>

definition link_elements ::
  "collaborators \<Rightarrow> HeaderAbiLinker \<Rightarrow> TextFormatToIRReader \<Rightarrow> IRDumper
    \<Rightarrow> bool \<times> IRDumper \<times> HeaderAbiLinker" where
  "link_elements env this reader d =
     (case LinkTypes env this reader d of
        (False, d1, this1) \<Rightarrow> (False, d1, this1)
      | (True, d1, this1) \<Rightarrow>
          (case LinkFunctions env this1 reader d1 of
             (False, d2, this2) \<Rightarrow> (False, d2, this2)
           | (True, d2, this2) \<Rightarrow> LinkGlobalVars env this2 reader d2))"

text \<open>
  \<^verbatim>\<open>LinkAndDump\<close>. The value of \<^verbatim>\<open>AddElfSymbols(ir_dumper.get())\<close> is not used;
  the dumper goes on as that call left it.
\<close>

definition LinkAndDump ::
  "collaborators \<Rightarrow> nat list \<Rightarrow> options \<Rightarrow> link_result outcome" where
  "LinkAndDump env schedule opts =
     (case resolve_exports env opts new_HeaderAbiLinker of
        Exits n \<Rightarrow> Exits n
      | Throws \<Rightarrow> Throws
      | Pending \<Rightarrow> Pending
      | Returns (False, this, e) \<Rightarrow>
          Returns \<lparr>returned = False, errs = e, linker = this, ir_dumper = None\<rparr>
      | Returns (True, this, e) \<Rightarrow>
          (let d0 = snd (AddElfSymbols env this CreateIRDumper)
           in case DeDuplicateAbiElements (ReadDump env (exported_headers this))
                     (hardware_concurrency env) schedule (dump_files opts) of
                Exits n \<Rightarrow> Exits n
              | Throws \<Rightarrow> Throws
              | Pending \<Rightarrow> Pending
              | Returns s \<Rightarrow>
                  (case link_elements env this (greader s) d0 of
                     (False, d, this') \<Rightarrow>
                       Returns \<lparr>returned = False,
                         errs = e @ [''Failed to add element to linked dump'',
                                     ''Failed to link elements''],
                         linker = this', ir_dumper = Some d\<rparr>
                   | (True, d, this') \<Rightarrow>
                       if \<not> Dump env d
                       then Returns \<lparr>returned = False,
                              errs = e @ [''Serialization to ostream failed''],
                              linker = this', ir_dumper = Some d\<rparr>
                       else Returns \<lparr>returned = True, errs = e, linker = this',
                              ir_dumper = Some d\<rparr>)))"

text \<open>
  \<^verbatim>\<open>main\<close>, after the command line has been parsed into the options: the value it
  returns, and what has been written to \<^verbatim>\<open>llvm::errs()\<close> and to the dumper.
\<close>

record run_result =
  exit_code :: int
  diagnostics :: "string list"
  dumper :: "IRDumper option"

definition main :: "collaborators \<Rightarrow> nat list \<Rightarrow> options \<Rightarrow> run_result outcome" where
  "main env schedule opts =
     (if so_file opts = [] \<and> version_script opts = []
      then Returns \<lparr>exit_code = - 1,
             diagnostics = [''One of -so or -v needs to be specified''], dumper = None\<rparr>
      else
        (case LinkAndDump env schedule
                (if no_filter opts then opts\<lparr>exported_header_dirs := []\<rparr> else opts) of
           Exits n \<Rightarrow> Exits n
         | Throws \<Rightarrow> Throws
         | Pending \<Rightarrow> Pending
         | Returns r \<Rightarrow>
             if \<not> returned r
             then Returns \<lparr>exit_code = - 1,
                    diagnostics = errs r @ [''Failed to link and dump elements''],
                    dumper = ir_dumper r\<rparr>
             else Returns \<lparr>exit_code = 0, diagnostics = errs r, dumper = ir_dumper r\<rparr>))"

subsection \<open>The invariant of the aggregation\<close>

text \<open>
  While the threads run: no reader holds a key twice; every file below the counter
  has been decoded into the local reader of some thread; and a thread finishes only
  after the counter has passed the last file, its local reader then being part of the
  shared one.
\<close>

definition agg_inv ::
  "(string \<Rightarrow> TextFormatToIRReader option) \<Rightarrow> string list \<Rightarrow> shared \<Rightarrow> bool" where
  "agg_inv read files s \<longleftrightarrow>
     (\<forall>c. distinct (keys (greader s c))) \<and>
     (\<forall>t<length (threads s). \<forall>c. distinct (keys (local_reader (threads s ! t) c))) \<and>
     (\<forall>j<min (cnt s) (length files). \<exists>t<length (threads s).
        \<forall>r c. read (files ! j) = Some r \<longrightarrow>
          set (keys (r c)) \<subseteq> set (keys (local_reader (threads s ! t) c))) \<and>
     (\<forall>t<length (threads s). finished (threads s ! t) \<longrightarrow>
        length files \<le> cnt s \<and>
        (\<forall>c. set (keys (local_reader (threads s ! t) c)) \<subseteq> set (keys (greader s c))))"

subsection \<open>Example inputs\<close>

definition decl :: "string \<Rightarrow> string \<Rightarrow> LinkableMessageIR" where
  "decl header text = \<lparr>source_file = header, content = text\<rparr>"

definition dump_of ::
  "LinkableMessageIR AbiElementMap \<Rightarrow> LinkableMessageIR AbiElementMap
    \<Rightarrow> LinkableMessageIR AbiElementMap \<Rightarrow> TextFormatToIRReader" where
  "dump_of functions records builtins =
     (\<lambda>c. if c = Functions then functions
          else if c = RecordTypes then records
          else if c = BuiltinTypes then builtins
          else [])"

text \<open>
  Three dumps with the function keys \<open>f1\<close>, \<open>f2\<close> and \<open>f1\<close>, two record types
  and a builtin type without a source file; no other file decodes.
\<close>

definition example_dump :: "string \<Rightarrow> TextFormatToIRReader option" where
  "example_dump f =
     (if f = ''a.sdump''
        then Some (dump_of [(''f1'', decl ''a.h'' ''f1'')] [(''t1'', decl ''a.h'' ''t1'')] [])
      else if f = ''b.sdump''
        then Some (dump_of [(''f2'', decl ''b.h'' ''f2'')] [(''t2'', decl ''b.h'' ''t2'')] [])
      else if f = ''c.sdump''
        then Some (dump_of [(''f1'', decl ''c.h'' ''f1'')] [] [(''int'', decl [] ''int'')])
      else None)"

definition three_files :: "string list" where
  "three_files = [''a.sdump'', ''b.sdump'', ''c.sdump'']"

definition eight_files :: "string list" where
  "eight_files = three_files @ three_files @ [''a.sdump'', ''b.sdump'']"

definition fourteen_files :: "string list" where
  "fourteen_files = eight_files @ three_files @ three_files"

definition fifteen_files :: "string list" where
  "fifteen_files = three_files @ three_files @ three_files @ three_files @ three_files"

text \<open>
  Collaborators: any export directory exports the header \<open>a.h\<close>; the shared object
  \<open>lib.so\<close> exports the function \<open>f1\<close>; the version script \<open>lib.map\<close> exports
  \<open>f1\<close> and the pattern \<open>g_*\<close>; the sink takes everything; the library throws
  for every expression that the model does not read.
\<close>

definition example_env :: collaborators where
  "example_env =
     \<lparr>CollectAllExportedHeaders = (\<lambda>dirs. if dirs = [] then {} else {''a.h''}),
      SoFileParser = (\<lambda>f. if f = ''lib.so'' then SoSymbols [(''f1'', ''f1'')] [] else NoBinary),
      VersionScriptParser = (\<lambda>f a v. if f = ''lib.map''
         then Some \<lparr>GetFunctions = [(''f1'', ''f1'')], GetGlobVars = [],
                    GetFunctionRegexs = [''g_*''], GetGlobVarRegexs = []\<rparr>
         else None),
      ReadDump = (\<lambda>headers. example_dump),
      AddElfSymbolMessageIR = (\<lambda>d e. True),
      AddLinkableMessageIR = (\<lambda>d e. True),
      Dump = (\<lambda>d. True),
      hardware_concurrency = 4,
      library_regex = (\<lambda>str. None)\<rparr>"

definition example_options :: options where
  "example_options =
     \<lparr>dump_files = three_files, linked_dump = ''out.lsdump'', exported_header_dirs = [],
      version_script = [], api = ''current'', arch = ''arm64'', no_filter = False,
      so_file = []\<rparr>"

text \<open>Three record types: from header \<open>A\<close>, from header \<open>B\<close>, and without a source file.\<close>

definition three_provenances :: TextFormatToIRReader where
  "three_provenances =
     dump_of [] [(''t1'', decl ''A'' ''t1''), (''t2'', decl ''B'' ''t2''), (''t3'', decl [] ''t3'')] []"

text \<open>A sink that refuses every exported-symbol record, and one that refuses every declaration.\<close>

definition elf_refusing_env :: collaborators where
  "elf_refusing_env = example_env\<lparr>AddElfSymbolMessageIR := (\<lambda>d e. False)\<rparr>"

definition decl_refusing_env :: collaborators where
  "decl_refusing_env = example_env\<lparr>AddLinkableMessageIR := (\<lambda>d e. False)\<rparr>"

definition both_flags :: options where
  "both_flags = example_options\<lparr>so_file := ''lib.so'', version_script := ''lib.map''\<rparr>"

definition only_so :: options where
  "only_so = example_options\<lparr>so_file := ''lib.so''\<rparr>"

definition only_version_script :: options where
  "only_version_script =
     example_options\<lparr>version_script := ''lib.map'', exported_header_dirs := [''include'']\<rparr>"

definition f1_exported :: HeaderAbiLinker where
  "f1_exported = new_HeaderAbiLinker\<lparr>function_decl_map := [(''f1'', ''f1'')]\<rparr>"

definition two_functions :: TextFormatToIRReader where
  "two_functions = dump_of [(''f1'', decl ''a.h'' ''f1''), (''f2'', decl ''b.h'' ''f2'')] [] []"

text \<open>The expression compiled from the pattern \<open>g_*\<close>.\<close>

definition g_star :: std_regex where
  "g_star = Compiled (Group (Seq WordBoundary (Seq (Chr (CHR ''g'')) (Seq (Chr (CHR ''_''))
      (Seq (Star AnyChar) WordBoundary)))))"

text \<open>
  Two global variables, a linker that exports the first of them, a linker that
  exports both functions, and a sink that refuses the declaration of \<open>f1\<close>.
\<close>

definition two_globals :: TextFormatToIRReader where
  "two_globals =
     (\<lambda>c. if c = GlobalVariables
          then [(''g1'', decl ''a.h'' ''g1''), (''g2'', decl ''b.h'' ''g2'')]
          else [])"

definition g1_exported :: HeaderAbiLinker where
  "g1_exported = new_HeaderAbiLinker\<lparr>globvar_decl_map := [(''g1'', ''g1'')]\<rparr>"

definition f1_f2_exported :: HeaderAbiLinker where
  "f1_f2_exported =
     new_HeaderAbiLinker\<lparr>function_decl_map := [(''f1'', ''f1''), (''f2'', ''f2'')]\<rparr>"

definition f1_refusing_env :: collaborators where
  "f1_refusing_env =
     example_env\<lparr>AddLinkableMessageIR := (\<lambda>d e. e \<noteq> decl ''a.h'' ''f1'')\<rparr>"


section \<open>Properties of the aggregation\<close>

subsection \<open>Merging\<close>

lemma keys_emplace: "set (keys (emplace m p)) = insert (fst p) (set (keys m))"
  by (auto simp: emplace_def keys_def)

lemma distinct_emplace: "distinct (keys m) \<Longrightarrow> distinct (keys (emplace m p))"
  by (auto simp: emplace_def keys_def)

lemma keys_MergeElements: "set (keys (MergeElements dst src)) = set (keys dst) \<union> set (keys src)"
  unfolding MergeElements_def
proof (induction src arbitrary: dst)
  case Nil
  show ?case by (simp add: keys_def)
next
  case (Cons p src)
  show ?case by (simp add: Cons.IH keys_emplace) (auto simp: keys_def)
qed

lemma distinct_MergeElements: "distinct (keys dst) \<Longrightarrow> distinct (keys (MergeElements dst src))"
  unfolding MergeElements_def
  by (induction src arbitrary: dst) (simp_all add: distinct_emplace)

lemma keys_MergeGraphs:
  "set (keys (MergeGraphs dst addend c)) = set (keys (dst c)) \<union> set (keys (addend c))"
  by (simp add: MergeGraphs_def keys_MergeElements)

lemma distinct_MergeGraphs:
  "distinct (keys (dst c)) \<Longrightarrow> distinct (keys (MergeGraphs dst addend c))"
  by (simp add: MergeGraphs_def distinct_MergeElements)

lemma read_files_grows:
  "read_files rd fs l = Some l' \<Longrightarrow> set (keys (l c)) \<subseteq> set (keys (l' c))"
proof (induction fs arbitrary: l)
  case Nil
  then show ?case by simp
next
  case (Cons f fs)
  then obtain r where r: "rd f = Some r" and rest: "read_files rd fs (MergeGraphs l r) = Some l'"
    by (auto split: option.splits)
  from Cons.IH [OF rest] show ?case by (simp add: keys_MergeGraphs)
qed

lemma read_files_covers:
  "read_files rd fs l = Some l' \<Longrightarrow> f \<in> set fs \<Longrightarrow> rd f = Some r
    \<Longrightarrow> set (keys (r c)) \<subseteq> set (keys (l' c))"
proof (induction fs arbitrary: l)
  case Nil
  then show ?case by simp
next
  case (Cons g fs)
  then obtain q where q: "rd g = Some q" and rest: "read_files rd fs (MergeGraphs l q) = Some l'"
    by (auto split: option.splits)
  show ?case
  proof (cases "f = g")
    case True
    with q Cons.prems(3) have "q = r" by simp
    with read_files_grows [OF rest, of c] show ?thesis by (simp add: keys_MergeGraphs)
  next
    case False
    with Cons.prems(2) have "f \<in> set fs" by simp
    from Cons.IH [OF rest this Cons.prems(3)] show ?thesis .
  qed
qed

lemma read_files_distinct:
  "read_files rd fs l = Some l' \<Longrightarrow> distinct (keys (l c)) \<Longrightarrow> distinct (keys (l' c))"
proof (induction fs arbitrary: l)
  case Nil
  then show ?case by simp
next
  case (Cons g fs)
  then obtain q where q: "rd g = Some q" and rest: "read_files rd fs (MergeGraphs l q) = Some l'"
    by (auto split: option.splits)
  from Cons.IH [OF rest] Cons.prems(2) show ?case by (simp add: distinct_MergeGraphs)
qed

lemma read_files_total:
  "\<forall>f \<in> set fs. rd f \<noteq> None \<Longrightarrow> \<exists>l'. read_files rd fs l = Some l'"
  by (induction fs arbitrary: l) auto

subsection \<open>The invariant holds along every schedule\<close>

lemma DeDuplicateAbiElementsThread_pass_length:
  "DeDuplicateAbiElementsThread_pass rd files t s = Returns s' \<Longrightarrow> length (threads s') = length (threads s)"
  by (auto simp: DeDuplicateAbiElementsThread_pass_def Let_def split: if_splits option.splits)

lemma batch_files_mem:
  assumes "j < min (i + kSourcesPerBatchThread) (length files)"
  shows "files ! j \<in> set (batch_files files i)"
  using assms by (auto simp: batch_files_def batch_indices_def image_iff intro!: bexI [of _ j])

lemma DeDuplicateAbiElementsThread_pass_inv:
  assumes inv: "agg_inv rd files s" and step: "DeDuplicateAbiElementsThread_pass rd files t s = Returns s'"
  shows "agg_inv rd files s'"
proof (cases "length (threads s) \<le> t \<or> finished (threads s ! t)")
  case True
  with step have "s' = s" by (simp add: DeDuplicateAbiElementsThread_pass_def)
  with inv show ?thesis by simp
next
  case False
  then have t: "t < length (threads s)" and nf: "\<not> finished (threads s ! t)" by auto
  from inv have
    dg: "\<And>c. distinct (keys (greader s c))" and
    dl: "\<And>u c. u < length (threads s) \<Longrightarrow> distinct (keys (local_reader (threads s ! u) c))" and
    cov: "\<And>j. j < min (cnt s) (length files) \<Longrightarrow> \<exists>u<length (threads s).
          \<forall>r c. rd (files ! j) = Some r \<longrightarrow>
          set (keys (r c)) \<subseteq> set (keys (local_reader (threads s ! u) c))" and
    fin: "\<And>u. u < length (threads s) \<Longrightarrow> finished (threads s ! u) \<Longrightarrow>
          length files \<le> cnt s \<and>
          (\<forall>c. set (keys (local_reader (threads s ! u) c)) \<subseteq> set (keys (greader s c)))"
    unfolding agg_inv_def by blast+
  show ?thesis
  proof (cases "length files \<le> cnt s")
    case True
    with False step have s': "s' = s\<lparr>cnt := cnt s + kSourcesPerBatchThread,
        greader := MergeGraphs (greader s) (local_reader (threads s ! t)),
        threads := (threads s)[t := (threads s ! t)\<lparr>finished := True\<rparr>]\<rparr>"
      by (simp add: DeDuplicateAbiElementsThread_pass_def Let_def)
    have loc: "\<And>u. u < length (threads s) \<Longrightarrow>
        local_reader (threads s' ! u) = local_reader (threads s ! u)"
      using t by (auto simp add: s' nth_list_update)
    have finu: "\<And>u. u < length (threads s) \<Longrightarrow>
        finished (threads s' ! u) = (u = t \<or> finished (threads s ! u))"
      using t by (auto simp add: s' nth_list_update)
    have len: "length (threads s') = length (threads s)" by (simp add: s')
    have g: "\<And>c. set (keys (greader s' c)) =
        set (keys (greader s c)) \<union> set (keys (local_reader (threads s ! t) c))"
      by (simp add: s' keys_MergeGraphs)
    have c': "cnt s' = cnt s + kSourcesPerBatchThread" by (simp add: s')
    show ?thesis unfolding agg_inv_def
    proof (intro conjI allI impI)
      fix c show "distinct (keys (greader s' c))" using dg by (simp add: s' distinct_MergeGraphs)
    next
      fix u c assume "u < length (threads s')"
      then show "distinct (keys (local_reader (threads s' ! u) c))" using dl loc len by simp
    next
      fix j assume "j < min (cnt s') (length files)"
      with True have "j < min (cnt s) (length files)" by simp
      from cov [OF this] obtain u where u: "u < length (threads s)"
        "\<forall>r c. rd (files ! j) = Some r \<longrightarrow>
          set (keys (r c)) \<subseteq> set (keys (local_reader (threads s ! u) c))" by blast
      from u(2) loc [OF u(1)] have "\<forall>r c. rd (files ! j) = Some r \<longrightarrow>
          set (keys (r c)) \<subseteq> set (keys (local_reader (threads s' ! u) c))" by simp
      with u(1) len show "\<exists>u<length (threads s'). \<forall>r c. rd (files ! j) = Some r \<longrightarrow>
          set (keys (r c)) \<subseteq> set (keys (local_reader (threads s' ! u) c))"
        by auto
    next
      fix u assume "u < length (threads s')" "finished (threads s' ! u)"
      then show "length files \<le> cnt s'" using True c' by simp
    next
      fix u c assume u: "u < length (threads s')" and f: "finished (threads s' ! u)"
      from u len have u': "u < length (threads s)" by simp
      show "set (keys (local_reader (threads s' ! u) c)) \<subseteq> set (keys (greader s' c))"
      proof (cases "u = t")
        case True
        then show ?thesis using loc [OF u'] g by auto
      next
        case False
        with f finu [OF u'] have "finished (threads s ! u)" by simp
        from fin [OF u' this] show ?thesis using loc [OF u'] g by auto
      qed
    qed
  next
    case nle: False
    with False step obtain l where
      rf: "read_files rd (batch_files files (cnt s)) (local_reader (threads s ! t)) = Some l" and
      s': "s' = s\<lparr>cnt := cnt s + kSourcesPerBatchThread,
        threads := (threads s)[t := (threads s ! t)\<lparr>local_reader := l,
           decoded := decoded (threads s ! t) @ batch_indices (cnt s) (length files)\<rparr>]\<rparr>"
      by (auto simp add: DeDuplicateAbiElementsThread_pass_def Let_def split: option.splits)
    have len: "length (threads s') = length (threads s)" by (simp add: s')
    have loc: "\<And>u c. u < length (threads s) \<Longrightarrow>
        set (keys (local_reader (threads s ! u) c)) \<subseteq> set (keys (local_reader (threads s' ! u) c))"
      using read_files_grows [OF rf] t by (auto simp add: s' nth_list_update)
    have loc_other: "\<And>u. u < length (threads s) \<Longrightarrow> u \<noteq> t \<Longrightarrow> threads s' ! u = threads s ! u"
      by (simp add: s')
    have loc_t: "local_reader (threads s' ! t) = l" using t by (simp add: s')
    have nofin: "\<And>u. u < length (threads s) \<Longrightarrow> \<not> finished (threads s ! u)"
      using fin nle by blast
    have finu: "\<And>u. u < length (threads s) \<Longrightarrow>
        finished (threads s' ! u) = finished (threads s ! u)"
      using t by (auto simp add: s' nth_list_update)
    show ?thesis unfolding agg_inv_def
    proof (intro conjI allI impI)
      fix c show "distinct (keys (greader s' c))" using dg by (simp add: s')
    next
      fix u c assume u: "u < length (threads s')"
      show "distinct (keys (local_reader (threads s' ! u) c))"
      proof (cases "u = t")
        case True
        with read_files_distinct [OF rf dl [OF t]] loc_t show ?thesis by simp
      next
        case False
        with u len loc_other dl show ?thesis by simp
      qed
    next
      fix j assume j: "j < min (cnt s') (length files)"
      then have "j < min (cnt s + kSourcesPerBatchThread) (length files)" by (simp add: s')
      from batch_files_mem [OF this] have mem: "files ! j \<in> set (batch_files files (cnt s))" .
      have "\<forall>r c. rd (files ! j) = Some r \<longrightarrow>
          set (keys (r c)) \<subseteq> set (keys (local_reader (threads s' ! t) c))"
        using read_files_covers [OF rf mem] loc_t by simp
      with t len show "\<exists>u<length (threads s'). \<forall>r c. rd (files ! j) = Some r \<longrightarrow>
          set (keys (r c)) \<subseteq> set (keys (local_reader (threads s' ! u) c))" by auto
    next
      fix u assume "u < length (threads s')" "finished (threads s' ! u)"
      with len finu nofin show "length files \<le> cnt s'" by auto
    next
      fix u c assume "u < length (threads s')" "finished (threads s' ! u)"
      with len finu nofin
      show "set (keys (local_reader (threads s' ! u) c)) \<subseteq> set (keys (greader s' c))" by auto
    qed
  qed
qed

lemma run_threads_inv:
  "agg_inv rd files s \<Longrightarrow> run_threads rd files sched s = Returns s'
    \<Longrightarrow> agg_inv rd files s' \<and> length (threads s') = length (threads s)"
proof (induction sched arbitrary: s)
  case Nil
  then show ?case by simp
next
  case (Cons t ts)
  then obtain s1 where p: "DeDuplicateAbiElementsThread_pass rd files t s = Returns s1"
    and r: "run_threads rd files ts s1 = Returns s'"
    by (auto split: outcome.splits)
  from Cons.IH [OF DeDuplicateAbiElementsThread_pass_inv [OF Cons.prems(1) p] r] DeDuplicateAbiElementsThread_pass_length [OF p]
  show ?case by simp
qed

lemma initial_inv: "agg_inv rd files (initial_shared m n)"
  unfolding agg_inv_def initial_shared_def CreateTextFormatToIRReader_def keys_def
  by (simp del: replicate_Suc replicate.simps add: nth_replicate)

lemma merged_complete:
  assumes "DeDuplicateAbiElements rd m sched files = Returns s"
    and "f \<in> set files" and "rd f = Some r"
  shows "set (keys (r c)) \<subseteq> set (keys (greader s c))" and "distinct (keys (greader s c))"
proof -
  from assms(1) have run: "run_threads rd files sched (initial_shared m (length files)) = Returns s"
    and fin: "list_all finished (threads s)"
    by (auto simp: DeDuplicateAbiElements_def split: outcome.splits if_splits)
  from run_threads_inv [OF initial_inv run]
  have inv: "agg_inv rd files s"
    and len: "length (threads s) = length (threads (initial_shared m (length files)))"
    by simp_all
  from len have pos: "0 < length (threads s)" by (simp add: initial_shared_def)
  from fin have allfin: "\<And>u. u < length (threads s) \<Longrightarrow> finished (threads s ! u)"
    by (simp add: list_all_length)
  from inv show "distinct (keys (greader s c))" by (simp add: agg_inv_def)
  from inv allfin [OF pos] pos have claimed: "length files \<le> cnt s" unfolding agg_inv_def by blast
  from assms(2) obtain j where j: "j < length files" "files ! j = f" by (auto simp: in_set_conv_nth)
  with claimed have "j < min (cnt s) (length files)" by simp
  with inv obtain u where u: "u < length (threads s)"
    "\<forall>r c. rd (files ! j) = Some r \<longrightarrow>
       set (keys (r c)) \<subseteq> set (keys (local_reader (threads s ! u) c))"
    unfolding agg_inv_def by blast
  from inv u(1) allfin [OF u(1)]
  have "set (keys (local_reader (threads s ! u) c)) \<subseteq> set (keys (greader s c))"
    unfolding agg_inv_def by blast
  with u(2) j(2) assms(3) show "set (keys (r c)) \<subseteq> set (keys (greader s c))" by blast
qed

subsection \<open>Every thread finishes\<close>

lemma batch_files_subset: "set (batch_files files i) \<subseteq> set files"
  by (auto simp: batch_files_def batch_indices_def)

lemma DeDuplicateAbiElementsThread_pass_total:
  assumes "\<forall>f\<in>set files. rd f \<noteq> None"
  shows "\<exists>s'. DeDuplicateAbiElementsThread_pass rd files t s = Returns s'"
proof -
  have "\<forall>f\<in>set (batch_files files (cnt s)). rd f \<noteq> None"
    using assms batch_files_subset by blast
  from read_files_total [OF this, of "local_reader (threads s ! t)"]
  obtain l where "read_files rd (batch_files files (cnt s)) (local_reader (threads s ! t)) = Some l"
    by blast
  then show ?thesis by (simp add: DeDuplicateAbiElementsThread_pass_def Let_def)
qed

lemma DeDuplicateAbiElementsThread_pass_cnt: "DeDuplicateAbiElementsThread_pass rd files t s = Returns s' \<Longrightarrow> cnt s \<le> cnt s'"
  by (auto simp: DeDuplicateAbiElementsThread_pass_def Let_def split: if_splits option.splits)

lemma DeDuplicateAbiElementsThread_pass_finished_stable:
  "DeDuplicateAbiElementsThread_pass rd files t s = Returns s' \<Longrightarrow> u < length (threads s)
    \<Longrightarrow> finished (threads s ! u) \<Longrightarrow> finished (threads s' ! u)"
  by (auto simp: DeDuplicateAbiElementsThread_pass_def Let_def nth_list_update split: if_splits option.splits)

lemma DeDuplicateAbiElementsThread_pass_own:
  assumes "DeDuplicateAbiElementsThread_pass rd files t s = Returns s'" and "t < length (threads s)"
  shows "finished (threads s' ! t) \<or> (cnt s < length files \<and> cnt s' = cnt s + kSourcesPerBatchThread)"
  using assms
  by (auto simp: DeDuplicateAbiElementsThread_pass_def Let_def nth_list_update split: if_splits option.splits)

lemma run_threads_finishes:
  assumes rd: "\<forall>f\<in>set files. rd f \<noteq> None"
  shows "t < length (threads s) \<Longrightarrow>
     finished (threads s ! t) \<or>
       (1 \<le> count_list sched t \<and>
        length files \<le> cnt s + kSourcesPerBatchThread * (count_list sched t - 1)) \<Longrightarrow>
     \<exists>s'. run_threads rd files sched s = Returns s' \<and> finished (threads s' ! t)"
proof (induction sched arbitrary: s)
  case Nil
  then show ?case by simp
next
  case (Cons u us)
  from DeDuplicateAbiElementsThread_pass_total [OF rd] obtain s1 where p: "DeDuplicateAbiElementsThread_pass rd files u s = Returns s1"
    by blast
  have len: "t < length (threads s1)" using DeDuplicateAbiElementsThread_pass_length [OF p] Cons.prems(1) by simp
  have "finished (threads s1 ! t) \<or>
       (1 \<le> count_list us t \<and>
        length files \<le> cnt s1 + kSourcesPerBatchThread * (count_list us t - 1))"
  proof (cases "finished (threads s ! t)")
    case True
    with DeDuplicateAbiElementsThread_pass_finished_stable [OF p Cons.prems(1)] show ?thesis by simp
  next
    case False
    with Cons.prems(2) have c: "1 \<le> count_list (u # us) t"
      "length files \<le> cnt s + kSourcesPerBatchThread * (count_list (u # us) t - 1)" by auto
    show ?thesis
    proof (cases "u = t")
      case True
      with DeDuplicateAbiElementsThread_pass_own [OF p] Cons.prems(1)
      consider "finished (threads s1 ! t)"
        | "cnt s < length files" "cnt s1 = cnt s + kSourcesPerBatchThread" by auto
      then show ?thesis
      proof cases
        case 1
        then show ?thesis by simp
      next
        case 2
        with c True have "1 \<le> count_list us t"
          by (cases "count_list us t") (auto simp: kSourcesPerBatchThread_def)
        moreover from 2 c True
        have "length files \<le> cnt s1 + kSourcesPerBatchThread * (count_list us t - 1)"
          by (cases "count_list us t") (auto simp: kSourcesPerBatchThread_def)
        ultimately show ?thesis by simp
      qed
    next
      case False
      with c DeDuplicateAbiElementsThread_pass_cnt [OF p] show ?thesis by auto
    qed
  qed
  from Cons.IH [OF len this] p show ?case by simp
qed

lemma aggregation_returns:
  assumes rd: "\<forall>f\<in>set files. rd f \<noteq> None"
    and fair: "\<forall>t<Suc (num_threads m (length files) - 1).
       length files div kSourcesPerBatchThread + 2 \<le> count_list sched t"
  shows "\<exists>s. DeDuplicateAbiElements rd m sched files = Returns s"
proof -
  let ?s0 = "initial_shared m (length files)"
  have len0: "length (threads ?s0) = Suc (num_threads m (length files) - 1)"
    by (simp add: initial_shared_def)
  have "0 < length (threads ?s0)" using len0 by simp
  have bound: "length files \<le> kSourcesPerBatchThread * (length files div kSourcesPerBatchThread + 1)"
    unfolding kSourcesPerBatchThread_def by presburger
  have each: "\<exists>s'. run_threads rd files sched ?s0 = Returns s' \<and> finished (threads s' ! t)"
    if t: "t < length (threads ?s0)" for t
  proof -
    from fair t len0 have c: "length files div kSourcesPerBatchThread + 2 \<le> count_list sched t"
      by simp
    then have "length files div kSourcesPerBatchThread + 1 \<le> count_list sched t - 1" by simp
    then have "kSourcesPerBatchThread * (length files div kSourcesPerBatchThread + 1)
        \<le> kSourcesPerBatchThread * (count_list sched t - 1)" by (rule mult_le_mono2)
    with bound have "length files \<le> cnt ?s0 + kSourcesPerBatchThread * (count_list sched t - 1)"
      by simp
    with c have "finished (threads ?s0 ! t) \<or>
       (1 \<le> count_list sched t \<and>
        length files \<le> cnt ?s0 + kSourcesPerBatchThread * (count_list sched t - 1))" by simp
    from run_threads_finishes [OF rd t this] show ?thesis .
  qed
  from each [OF \<open>0 < length (threads ?s0)\<close>] obtain s where
    run: "run_threads rd files sched ?s0 = Returns s" by blast
  from run_threads_inv [OF initial_inv run] have len: "length (threads s) = length (threads ?s0)"
    by simp
  have "list_all finished (threads s)"
    unfolding list_all_length using each run len by fastforce
  with run show ?thesis by (simp add: DeDuplicateAbiElements_def)
qed

subsection \<open>The merged graph\<close>

text \<open>
  Claim C1. Whatever the number of hardware threads and whatever the schedule (which
  thread claims which batch), once all threads have finished the merged graph holds, in
  every category, every declaration key of every input dump, and holds no key twice.
  The aggregation does finish: when every file decodes and the schedule gives each
  thread at least \<open>length files div 7 + 2\<close> passes, it returns a merged graph.
\<close>

theorem merged_graph_complete_and_distinct:
  "(DeDuplicateAbiElements read max_threads schedule files = Returns s \<longrightarrow>
      (\<forall>c. distinct (keys (greader s c))) \<and>
      (\<forall>f\<in>set files. \<forall>r c. read f = Some r \<longrightarrow>
          set (keys (r c)) \<subseteq> set (keys (greader s c)))) \<and>
   ((\<forall>f\<in>set files. read f \<noteq> None) \<and>
    (\<forall>t<Suc (num_threads max_threads (length files) - 1).
        length files div kSourcesPerBatchThread + 2 \<le> count_list schedule t) \<longrightarrow>
      (\<exists>s'. DeDuplicateAbiElements read max_threads schedule files = Returns s'))"
proof (intro conjI impI allI ballI)
  fix c assume "DeDuplicateAbiElements read max_threads schedule files = Returns s"
  then show "distinct (keys (greader s c))"
    by (auto simp: DeDuplicateAbiElements_def agg_inv_def
        dest!: run_threads_inv [OF initial_inv] split: outcome.splits if_splits)
next
  fix f r c
  assume "DeDuplicateAbiElements read max_threads schedule files = Returns s"
    "f \<in> set files" "read f = Some r"
  then show "set (keys (r c)) \<subseteq> set (keys (greader s c))" by (rule merged_complete(1))
next
  assume "(\<forall>f\<in>set files. read f \<noteq> None) \<and>
    (\<forall>t<Suc (num_threads max_threads (length files) - 1).
        length files div kSourcesPerBatchThread + 2 \<le> count_list schedule t)"
  then show "\<exists>s'. DeDuplicateAbiElements read max_threads schedule files = Returns s'"
    using aggregation_returns by blast
qed

theorem merged_graph_complete_and_distinct_witness:
  "\<exists>s. DeDuplicateAbiElements example_dump 2 [0, 1, 0, 1, 0, 1, 0, 1] fifteen_files = Returns s \<and>
       distinct (keys (greader s Functions)) \<and>
       ''f1'' \<in> set (keys (greader s Functions)) \<and>
       ''f2'' \<in> set (keys (greader s Functions))"
proof -
  have files: "\<forall>f\<in>set fifteen_files. example_dump f \<noteq> None"
    by (simp add: fifteen_files_def three_files_def example_dump_def)
  have threads: "Suc (num_threads 2 (length fifteen_files) - 1) = 2"
    by (simp add: num_threads_def kSourcesPerBatchThread_def fifteen_files_def three_files_def)
  have fair: "\<forall>t<2. length fifteen_files div kSourcesPerBatchThread + 2
      \<le> count_list [0, 1, 0, 1, 0, 1, 0, 1] (t::nat)"
    by (auto simp add: kSourcesPerBatchThread_def fifteen_files_def three_files_def less_Suc_eq
        numeral_2_eq_2)
  have h: "(\<forall>f\<in>set fifteen_files. example_dump f \<noteq> None) \<and>
    (\<forall>t<Suc (num_threads 2 (length fifteen_files) - 1).
        length fifteen_files div kSourcesPerBatchThread + 2
          \<le> count_list [0, 1, 0, 1, 0, 1, 0, 1] t)"
    using files fair unfolding threads by blast
  from merged_graph_complete_and_distinct [THEN conjunct2, THEN mp, OF h]
  obtain s where
    s: "DeDuplicateAbiElements example_dump 2 [0, 1, 0, 1, 0, 1, 0, 1] fifteen_files = Returns s"
    by blast
  have a: "''a.sdump'' \<in> set fifteen_files" and b: "''b.sdump'' \<in> set fifteen_files"
    by (simp_all add: fifteen_files_def three_files_def)
  have ra: "example_dump ''a.sdump'' =
      Some (dump_of [(''f1'', decl ''a.h'' ''f1'')] [(''t1'', decl ''a.h'' ''t1'')] [])"
    and rb: "example_dump ''b.sdump'' =
      Some (dump_of [(''f2'', decl ''b.h'' ''f2'')] [(''t2'', decl ''b.h'' ''t2'')] [])"
    by (simp_all add: example_dump_def)
  from merged_graph_complete_and_distinct [THEN conjunct1, THEN mp, OF s]
  have d: "\<forall>c. distinct (keys (greader s c))"
    and cov: "\<forall>f\<in>set fifteen_files. \<forall>r c. example_dump f = Some r \<longrightarrow>
          set (keys (r c)) \<subseteq> set (keys (greader s c))"
    by blast+
  from cov a ra
  have "set (keys (dump_of [(''f1'', decl ''a.h'' ''f1'')] [(''t1'', decl ''a.h'' ''t1'')] []
        Functions))
      \<subseteq> set (keys (greader s Functions))" by blast
  then have f1: "''f1'' \<in> set (keys (greader s Functions))"
    by (simp add: keys_def dump_of_def)
  from cov b rb
  have "set (keys (dump_of [(''f2'', decl ''b.h'' ''f2'')] [(''t2'', decl ''b.h'' ''t2'')] []
        Functions))
      \<subseteq> set (keys (greader s Functions))" by blast
  then have f2: "''f2'' \<in> set (keys (greader s Functions))"
    by (simp add: keys_def dump_of_def)
  from s d f1 f2 show ?thesis by blast
qed

subsection \<open>What one batch decodes\<close>

text \<open>
  Claim C2 says that a thread which claims offset \<open>i\<close> decodes the files \<open>i\<close> to
  \<open>min (i + 7) n - 1\<close> and no other. The loop of the source starts at \<^verbatim>\<open>begin_it\<close>,
  not at \<^verbatim>\<open>begin_it + i\<close>: after claiming offset 7 of 8 files the thread decodes the
  files 0 to 7; and of 14 files and two threads, the thread that claims only offset 7
  decodes the files 0 to 13, seven of them from the batch of the other thread.
\<close>

theorem batch_decodes_from_first_file:
  "batch_indices 7 8 = [0, 1, 2, 3, 4, 5, 6, 7] \<and>
   (case DeDuplicateAbiElements example_dump 1 [0, 0, 0] eight_files of
      Returns s \<Rightarrow> concat (map decoded (threads s)) | _ \<Rightarrow> []) =
     [0, 1, 2, 3, 4, 5, 6, 0, 1, 2, 3, 4, 5, 6, 7] \<and>
   (case DeDuplicateAbiElements example_dump 2 [0, 1, 0, 1] fourteen_files of
      Returns s \<Rightarrow> decoded (threads s ! 0) | _ \<Rightarrow> []) =
     [0, 1, 2, 3, 4, 5, 6] \<and>
   (case DeDuplicateAbiElements example_dump 2 [0, 1, 0, 1] fourteen_files of
      Returns s \<Rightarrow> decoded (threads s ! 1) | _ \<Rightarrow> []) =
     [0, 1, 2, 3, 4, 5, 6, 7, 8, 9, 10, 11, 12, 13]"
  by code_simp

section \<open>Properties of the filters\<close>

subsection \<open>One pass of LinkDecl\<close>

lemma LinkDecl_skip:
  "exported_headers this \<noteq> {} \<and> source_file (snd el) \<noteq> [] \<and>
     source_file (snd el) \<notin> exported_headers this \<Longrightarrow>
   LinkDecl env this dst (el # src) filt = LinkDecl env this dst src filt"
  by simp

lemma LinkDecl_reject:
  "\<not> (exported_headers this \<noteq> {} \<and> source_file (snd el) \<noteq> [] \<and>
     source_file (snd el) \<notin> exported_headers this) \<Longrightarrow>
   filt (fst el) this = (False, t1) \<Longrightarrow>
   LinkDecl env this dst (el # src) filt = LinkDecl env t1 dst src filt"
  by auto

lemma LinkDecl_refused:
  "\<not> (exported_headers this \<noteq> {} \<and> source_file (snd el) \<noteq> [] \<and>
     source_file (snd el) \<notin> exported_headers this) \<Longrightarrow>
   filt (fst el) this = (True, t1) \<Longrightarrow> \<not> AddLinkableMessageIR env dst (snd el) \<Longrightarrow>
   LinkDecl env this dst (el # src) filt = (False, dst, t1)"
  by auto

lemma LinkDecl_added:
  "\<not> (exported_headers this \<noteq> {} \<and> source_file (snd el) \<noteq> [] \<and>
     source_file (snd el) \<notin> exported_headers this) \<Longrightarrow>
   filt (fst el) this = (True, t1) \<Longrightarrow> AddLinkableMessageIR env dst (snd el) \<Longrightarrow>
   LinkDecl env this dst (el # src) filt =
     LinkDecl env t1 (dst\<lparr>linkable_messages := linkable_messages dst @ [snd el]\<rparr>) src filt"
  by auto

lemma LinkDecl_generic:
  assumes inv: "\<And>k t. I t \<Longrightarrow> I (snd (filt k t))"
    and acc: "\<And>k e t. I t \<Longrightarrow> (k, e) \<in> set srcs \<Longrightarrow>
        H = {} \<or> source_file e = [] \<or> source_file e \<in> H \<Longrightarrow> fst (filt k t) \<Longrightarrow> Q k e"
    and hdr: "\<And>t. I t \<Longrightarrow> exported_headers t = H"
  shows "I this \<Longrightarrow> set src \<subseteq> set srcs \<Longrightarrow>
     LinkDecl env this dst src filt = (ok, dst', this') \<Longrightarrow>
     I this' \<and> elf_symbols dst' = elf_symbols dst \<and>
     (\<exists>new. linkable_messages dst' = linkable_messages dst @ new \<and>
        (\<forall>e\<in>set new. \<exists>k. (k, e) \<in> set src \<and> Q k e))"
proof (induction src arbitrary: this dst)
  case Nil
  then show ?case by simp
next
  case (Cons el src)
  let ?skip = "exported_headers this \<noteq> {} \<and> source_file (snd el) \<noteq> [] \<and>
         source_file (snd el) \<notin> exported_headers this"
  have H: "exported_headers this = H" using hdr Cons.prems(1) by simp
  from Cons.prems(2) have sub: "set src \<subseteq> set srcs" and el0: "(fst el, snd el) \<in> set srcs"
    by auto
  show ?case
  proof (cases ?skip)
    case True
    from Cons.prems(3) [unfolded LinkDecl_skip [OF True]]
    have "LinkDecl env this dst src filt = (ok, dst', this')" .
    from Cons.IH [OF Cons.prems(1) sub this] show ?thesis by fastforce
  next
    case noskip: False
    obtain b t1 where f: "filt (fst el) this = (b, t1)" by (cases "filt (fst el) this")
    have I1: "I t1" using inv [OF Cons.prems(1), of "fst el"] f by simp
    show ?thesis
    proof (cases b)
      case False
      with f have f': "filt (fst el) this = (False, t1)" by simp
      from Cons.prems(3) [unfolded LinkDecl_reject [where filt = filt, OF noskip f']]
      have "LinkDecl env t1 dst src filt = (ok, dst', this')" .
      from Cons.IH [OF I1 sub this] show ?thesis by fastforce
    next
      case True
      with f have f': "filt (fst el) this = (True, t1)" by simp
      from noskip H have ok: "H = {} \<or> source_file (snd el) = [] \<or> source_file (snd el) \<in> H"
        by blast
      have A: "Q (fst el) (snd el)" using acc [OF Cons.prems(1) el0 ok] f' by simp
      show ?thesis
      proof (cases "AddLinkableMessageIR env dst (snd el)")
        case False
        from Cons.prems(3) [unfolded LinkDecl_refused [where filt = filt, OF noskip f' False]]
        have "dst' = dst" "this' = t1" by simp_all
        with I1 show ?thesis by simp
      next
        case acc1: True
        let ?d = "dst\<lparr>linkable_messages := linkable_messages dst @ [snd el]\<rparr>"
        from Cons.prems(3) [unfolded LinkDecl_added [where filt = filt, OF noskip f' acc1]]
        have "LinkDecl env t1 ?d src filt = (ok, dst', this')" .
        from Cons.IH [OF I1 sub this] obtain new where
          n: "I this'" "elf_symbols dst' = elf_symbols dst"
          "linkable_messages dst' = linkable_messages dst @ snd el # new"
          "\<forall>e\<in>set new. \<exists>k. (k, e) \<in> set src \<and> Q k e" by auto
        have el: "(fst el, snd el) \<in> set (el # src)" by simp
        have "\<forall>e\<in>set (snd el # new). \<exists>k. (k, e) \<in> set (el # src) \<and> Q k e"
        proof
          fix e assume "e \<in> set (snd el # new)"
          then consider "e = snd el" | "e \<in> set new" by auto
          then show "\<exists>k. (k, e) \<in> set (el # src) \<and> Q k e"
          proof cases
            case 1
            with el A show ?thesis by blast
          next
            case 2
            with n(4) show ?thesis by fastforce
          qed
        qed
        with n(1,2,3) show ?thesis by blast
      qed
    qed
  qed
qed

lemma LinkDecl_grows:
  assumes "LinkDecl env this dst src filt = (ok, dst', this')"
  shows "set (linkable_messages dst) \<subseteq> set (linkable_messages dst')"
  using assms
proof (induction src arbitrary: this dst)
  case Nil
  then show ?case by simp
next
  case (Cons el src)
  show ?case
  proof (cases "exported_headers this \<noteq> {} \<and> source_file (snd el) \<noteq> [] \<and>
         source_file (snd el) \<notin> exported_headers this")
    case True
    from Cons.prems [unfolded LinkDecl_skip [OF True]] Cons.IH show ?thesis by blast
  next
    case noskip: False
    obtain b t1 where f: "filt (fst el) this = (b, t1)" by (cases "filt (fst el) this")
    show ?thesis
    proof (cases b)
      case False
      with f have f': "filt (fst el) this = (False, t1)" by simp
      from Cons.prems [unfolded LinkDecl_reject [where filt = filt, OF noskip f']] Cons.IH
      show ?thesis by blast
    next
      case True
      with f have f': "filt (fst el) this = (True, t1)" by simp
      show ?thesis
      proof (cases "AddLinkableMessageIR env dst (snd el)")
        case False
        from Cons.prems [unfolded LinkDecl_refused [where filt = filt, OF noskip f' False]]
        show ?thesis by simp
      next
        case acc1: True
        from Cons.prems [unfolded LinkDecl_added [where filt = filt, OF noskip f' acc1]]
        have "set (linkable_messages (dst\<lparr>linkable_messages := linkable_messages dst @ [snd el]\<rparr>))
          \<subseteq> set (linkable_messages dst')" by (rule Cons.IH)
        then show ?thesis by simp
      qed
    qed
  qed
qed

lemma LinkDecl_forwards:
  assumes inv: "\<And>k t. I t \<Longrightarrow> I (snd (filt k t))"
    and must: "\<And>k t. I t \<Longrightarrow> M k \<Longrightarrow> fst (filt k t)"
    and hdr: "\<And>t. I t \<Longrightarrow> exported_headers t = H"
  shows "I this \<Longrightarrow> LinkDecl env this dst src filt = (True, dst', this') \<Longrightarrow>
     (k, e) \<in> set src \<Longrightarrow> M k \<Longrightarrow> H = {} \<or> source_file e = [] \<or> source_file e \<in> H \<Longrightarrow>
     e \<in> set (linkable_messages dst')"
proof (induction src arbitrary: this dst)
  case Nil
  then show ?case by simp
next
  case (Cons el src)
  have grows: "set (linkable_messages d) \<subseteq> set (linkable_messages d')"
    if "LinkDecl env t d src filt = (True, d', t')" for t d d' t'
    using that by (rule LinkDecl_grows)
  let ?skip = "exported_headers this \<noteq> {} \<and> source_file (snd el) \<noteq> [] \<and>
         source_file (snd el) \<notin> exported_headers this"
  have H: "exported_headers this = H" using hdr Cons.prems(1) by simp
  obtain b t1 where f: "filt (fst el) this = (b, t1)" by (cases "filt (fst el) this")
  have I1: "I t1" using inv [OF Cons.prems(1), of "fst el"] f by simp
  show ?case
  proof (cases "(k, e) = el")
    case True
    then have el: "fst el = k" "snd el = e" by auto
    with Cons.prems(5) H have noskip: "\<not> ?skip" by auto
    from must [OF Cons.prems(1) Cons.prems(4)] f el have b: "b" by simp
    with f have f': "filt (fst el) this = (True, t1)" by simp
    have a: "AddLinkableMessageIR env dst (snd el)"
    proof (rule ccontr)
      assume "\<not> AddLinkableMessageIR env dst (snd el)"
      from Cons.prems(2) [unfolded LinkDecl_refused [where filt = filt, OF noskip f' this]]
      show False by simp
    qed
    let ?d = "dst\<lparr>linkable_messages := linkable_messages dst @ [snd el]\<rparr>"
    from Cons.prems(2) [unfolded LinkDecl_added [where filt = filt, OF noskip f' a]]
    have "LinkDecl env t1 ?d src filt = (True, dst', this')" .
    from grows [OF this] el show ?thesis by auto
  next
    case False
    with Cons.prems(3) have mem: "(k, e) \<in> set src" by simp
    show ?thesis
    proof (cases ?skip)
      case True
      from Cons.prems(2) [unfolded LinkDecl_skip [OF True]]
      have "LinkDecl env this dst src filt = (True, dst', this')" .
      from Cons.IH [OF Cons.prems(1) this mem Cons.prems(4,5)] show ?thesis .
    next
      case noskip: False
      show ?thesis
      proof (cases b)
        case False
        with f have f': "filt (fst el) this = (False, t1)" by simp
        from Cons.prems(2) [unfolded LinkDecl_reject [where filt = filt, OF noskip f']]
        have "LinkDecl env t1 dst src filt = (True, dst', this')" .
        from Cons.IH [OF I1 this mem Cons.prems(4,5)] show ?thesis .
      next
        case True
        with f have f': "filt (fst el) this = (True, t1)" by simp
        have a: "AddLinkableMessageIR env dst (snd el)"
        proof (rule ccontr)
          assume "\<not> AddLinkableMessageIR env dst (snd el)"
          from Cons.prems(2) [unfolded LinkDecl_refused [where filt = filt, OF noskip f' this]]
      show False by simp
        qed
        let ?d = "dst\<lparr>linkable_messages := linkable_messages dst @ [snd el]\<rparr>"
        from Cons.prems(2) [unfolded LinkDecl_added [where filt = filt, OF noskip f' a]]
        have "LinkDecl env t1 ?d src filt = (True, dst', this')" .
        from Cons.IH [OF I1 this mem Cons.prems(4,5)] show ?thesis .
      qed
    qed
  qed
qed

subsection \<open>The symbol filters and the provenance filter\<close>

lemma functions_symbol_filter_keeps:
  "exported_headers (snd (functions_symbol_filter k t)) = exported_headers t"
  "function_decl_map (snd (functions_symbol_filter k t)) = function_decl_map t"
  "functions_vs_regex (snd (functions_symbol_filter k t)) = functions_vs_regex t"
  "globvar_decl_map (snd (functions_symbol_filter k t)) = globvar_decl_map t"
  "globvars_vs_regex (snd (functions_symbol_filter k t)) = globvars_vs_regex t"
  "globvars_regex_matched_set (snd (functions_symbol_filter k t)) = globvars_regex_matched_set t"
  by (simp_all add: functions_symbol_filter_def QueryRegexMatches_def)

lemma globvars_symbol_filter_keeps:
  "exported_headers (snd (globvars_symbol_filter k t)) = exported_headers t"
  "globvar_decl_map (snd (globvars_symbol_filter k t)) = globvar_decl_map t"
  "globvars_vs_regex (snd (globvars_symbol_filter k t)) = globvars_vs_regex t"
  "function_decl_map (snd (globvars_symbol_filter k t)) = function_decl_map t"
  "functions_vs_regex (snd (globvars_symbol_filter k t)) = functions_vs_regex t"
  "functions_regex_matched_set (snd (globvars_symbol_filter k t)) = functions_regex_matched_set t"
  by (simp_all add: globvars_symbol_filter_def QueryRegexMatches_def)

lemma functions_symbol_filter_accepts:
  "fst (functions_symbol_filter k t) \<Longrightarrow>
     k \<in> set (keys (function_decl_map t)) \<or>
     (k \<notin> functions_regex_matched_set t \<and> regex_search k (functions_vs_regex t))"
  by (auto simp: functions_symbol_filter_def QueryRegexMatches_def split: if_splits)

lemma globvars_symbol_filter_accepts:
  "fst (globvars_symbol_filter k t) \<Longrightarrow>
     k \<in> set (keys (globvar_decl_map t)) \<or>
     (k \<notin> globvars_regex_matched_set t \<and> regex_search k (globvars_vs_regex t))"
  by (auto simp: globvars_symbol_filter_def QueryRegexMatches_def split: if_splits)

lemma functions_symbol_filter_exact:
  "k \<in> set (keys (function_decl_map t)) \<Longrightarrow> fst (functions_symbol_filter k t)"
  by (simp add: functions_symbol_filter_def)

lemma globvars_symbol_filter_exact:
  "k \<in> set (keys (globvar_decl_map t)) \<Longrightarrow> fst (globvars_symbol_filter k t)"
  by (simp add: globvars_symbol_filter_def)

lemma no_filter_lambda_simps [simp]:
  "fst (no_filter_lambda k t) = True" "snd (no_filter_lambda k t) = t"
  by (simp_all add: no_filter_lambda_def)

text \<open>What one \<^verbatim>\<open>LinkDecl\<close> adds passes the provenance filter, whatever the symbol filter.\<close>

lemma LinkDecl_provenance:
  assumes keeps: "\<And>k t. exported_headers (snd (filt k t)) = exported_headers t"
    and run: "LinkDecl env this dst src filt = (ok, dst', this')"
  shows "exported_headers this' = exported_headers this \<and> elf_symbols dst' = elf_symbols dst \<and>
     (\<exists>new. linkable_messages dst' = linkable_messages dst @ new \<and>
        (\<forall>e\<in>set new. \<exists>k. (k, e) \<in> set src \<and>
           (exported_headers this = {} \<or> source_file e = [] \<or>
            source_file e \<in> exported_headers this)))"
proof -
  let ?H = "exported_headers this"
  let ?I = "\<lambda>t::HeaderAbiLinker. exported_headers t = ?H"
  let ?Q = "\<lambda>(k::string) e. ?H = {} \<or> source_file e = [] \<or> source_file e \<in> ?H"
  have inv: "\<And>k t. ?I t \<Longrightarrow> ?I (snd (filt k t))" by (simp add: keeps)
  have acc: "\<And>k e t. ?I t \<Longrightarrow> (k, e) \<in> set src \<Longrightarrow>
      ?H = {} \<or> source_file e = [] \<or> source_file e \<in> ?H \<Longrightarrow> fst (filt k t) \<Longrightarrow> ?Q k e"
    by simp
  have hdr: "\<And>t. ?I t \<Longrightarrow> exported_headers t = ?H" by simp
  have I0: "?I this" by simp
  have sub: "set src \<subseteq> set src" by simp
  show ?thesis
    by (rule LinkDecl_generic [where I = ?I and Q = ?Q and filt = filt and srcs = src
          and H = ?H, OF inv acc hdr I0 sub run])
qed

lemma LinkDecl_chain_provenance:
  "LinkDecl_chain env this dst reader cs = (ok, dst', this') \<Longrightarrow>
   exported_headers this' = exported_headers this \<and> elf_symbols dst' = elf_symbols dst \<and>
     (\<exists>new. linkable_messages dst' = linkable_messages dst @ new \<and>
        (\<forall>e\<in>set new. (\<exists>c k. (k, e) \<in> set (reader c)) \<and>
           (exported_headers this = {} \<or> source_file e = [] \<or>
            source_file e \<in> exported_headers this)))"
proof (induction cs arbitrary: this dst)
  case Nil
  then show ?case by simp
next
  case (Cons c cs)
  obtain b d1 t1 where l: "LinkDecl env this dst (reader c) no_filter_lambda = (b, d1, t1)"
    by (cases "LinkDecl env this dst (reader c) no_filter_lambda")
  from LinkDecl_provenance [OF _ l] obtain new1 where
    h1: "exported_headers t1 = exported_headers this" "elf_symbols d1 = elf_symbols dst"
    and n1: "linkable_messages d1 = linkable_messages dst @ new1"
      "\<forall>e\<in>set new1. \<exists>k. (k, e) \<in> set (reader c) \<and>
           (exported_headers this = {} \<or> source_file e = [] \<or>
            source_file e \<in> exported_headers this)"
    by auto
  show ?case
  proof (cases b)
    case False
    with l Cons.prems have "dst' = d1" "this' = t1" by simp_all
    with h1 n1 show ?thesis by blast
  next
    case True
    with l Cons.prems have "LinkDecl_chain env t1 d1 reader cs = (ok, dst', this')" by simp
    from Cons.IH [OF this] h1 obtain new2 where
      h2: "exported_headers this' = exported_headers this" "elf_symbols dst' = elf_symbols dst"
      and n2: "linkable_messages dst' = linkable_messages d1 @ new2"
      "\<forall>e\<in>set new2. (\<exists>c k. (k, e) \<in> set (reader c)) \<and>
           (exported_headers this = {} \<or> source_file e = [] \<or>
            source_file e \<in> exported_headers this)"
      by auto
    from n1 n2 have "linkable_messages dst' = linkable_messages dst @ (new1 @ new2)" by simp
    moreover from n1(2)
    have "\<forall>e\<in>set new1. (\<exists>c k. (k, e) \<in> set (reader c)) \<and>
           (exported_headers this = {} \<or> source_file e = [] \<or>
            source_file e \<in> exported_headers this)" by blast
    with n2(2)
    have "\<forall>e\<in>set (new1 @ new2). (\<exists>c k. (k, e) \<in> set (reader c)) \<and>
           (exported_headers this = {} \<or> source_file e = [] \<or>
            source_file e \<in> exported_headers this)" by auto
    ultimately show ?thesis using h2 by blast
  qed
qed

lemma link_elements_provenance:
  assumes "link_elements env this reader d = (ok, d', this')"
  shows "exported_headers this' = exported_headers this \<and> elf_symbols d' = elf_symbols d \<and>
     (\<exists>new. linkable_messages d' = linkable_messages d @ new \<and>
        (\<forall>e\<in>set new. (\<exists>c k. (k, e) \<in> set (reader c)) \<and>
           (exported_headers this = {} \<or> source_file e = [] \<or>
            source_file e \<in> exported_headers this)))"
proof -
  let ?P = "\<lambda>e. (\<exists>c k. (k, e) \<in> set (reader c)) \<and>
           (exported_headers this = {} \<or> source_file e = [] \<or>
            source_file e \<in> exported_headers this)"
  obtain b1 d1 t1 where l1: "LinkTypes env this reader d = (b1, d1, t1)"
    by (cases "LinkTypes env this reader d")
  from LinkDecl_chain_provenance [OF l1 [unfolded LinkTypes_def]] obtain new1 where
    h1: "exported_headers t1 = exported_headers this" "elf_symbols d1 = elf_symbols d"
    and n1: "linkable_messages d1 = linkable_messages d @ new1" "\<forall>e\<in>set new1. ?P e"
    by auto
  show ?thesis
  proof (cases b1)
    case False
    with l1 assms have "d' = d1" "this' = t1" by (simp_all add: link_elements_def)
    with h1 n1 show ?thesis by blast
  next
    case b1: True
    obtain b2 d2 t2 where l2: "LinkFunctions env t1 reader d1 = (b2, d2, t2)"
      by (cases "LinkFunctions env t1 reader d1")
    from LinkDecl_provenance [OF functions_symbol_filter_keeps(1) l2 [unfolded LinkFunctions_def]]
      h1 obtain new2 where
      h2: "exported_headers t2 = exported_headers this" "elf_symbols d2 = elf_symbols d"
      and n2: "linkable_messages d2 = linkable_messages d1 @ new2" "\<forall>e\<in>set new2. ?P e"
      by auto blast
    show ?thesis
    proof (cases b2)
      case False
      with b1 l1 l2 assms have "d' = d2" "this' = t2" by (simp_all add: link_elements_def)
      moreover from n1 n2 have "linkable_messages d2 = linkable_messages d @ (new1 @ new2)"
        "\<forall>e\<in>set (new1 @ new2). ?P e" by auto
      ultimately show ?thesis using h2 by blast
    next
      case b2: True
      with b1 l1 l2 assms have l3: "LinkGlobalVars env t2 reader d2 = (ok, d', this')"
        by (simp add: link_elements_def)
      from LinkDecl_provenance [OF globvars_symbol_filter_keeps(1) l3 [unfolded LinkGlobalVars_def]]
        h2 obtain new3 where
        h3: "exported_headers this' = exported_headers this" "elf_symbols d' = elf_symbols d"
        and n3: "linkable_messages d' = linkable_messages d2 @ new3" "\<forall>e\<in>set new3. ?P e"
        by auto blast
      from n1 n2 n3 have "linkable_messages d' = linkable_messages d @ (new1 @ new2 @ new3)"
        "\<forall>e\<in>set (new1 @ new2 @ new3). ?P e" by auto
      then show ?thesis using h3 by blast
    qed
  qed
qed

subsection \<open>What a pass settles\<close>

lemma LinkDecl_settles:
  assumes inv: "\<And>k t. I t \<Longrightarrow> I (snd (filt k t))"
    and hdr: "\<And>t. I t \<Longrightarrow> exported_headers t = H"
    and settle: "\<And>k t. I t \<Longrightarrow> C (snd (filt k t)) k"
    and mono: "\<And>k k' t. I t \<Longrightarrow> C t k' \<Longrightarrow> C (snd (filt k t)) k'"
  shows "I this \<Longrightarrow> LinkDecl env this dst src filt = (ok, dst', this') \<Longrightarrow>
     I this' \<and> (\<forall>k'. C this k' \<longrightarrow> C this' k') \<and>
     (ok \<longrightarrow> (\<forall>k e. (k, e) \<in> set src \<longrightarrow>
        (H = {} \<or> source_file e = [] \<or> source_file e \<in> H) \<longrightarrow> C this' k))"
proof (induction src arbitrary: this dst)
  case Nil
  then show ?case by simp
next
  case (Cons el src)
  let ?skip = "exported_headers this \<noteq> {} \<and> source_file (snd el) \<noteq> [] \<and>
         source_file (snd el) \<notin> exported_headers this"
  have H: "exported_headers this = H" using hdr Cons.prems(1) by simp
  show ?case
  proof (cases ?skip)
    case True
    from Cons.prems(2) [unfolded LinkDecl_skip [OF True]]
    have "LinkDecl env this dst src filt = (ok, dst', this')" .
    from Cons.IH [OF Cons.prems(1) this] True H show ?thesis by auto
  next
    case noskip: False
    obtain b t1 where f: "filt (fst el) this = (b, t1)" by (cases "filt (fst el) this")
    have I1: "I t1" using inv [OF Cons.prems(1), of "fst el"] f by simp
    have C1: "C t1 (fst el)" using settle [OF Cons.prems(1), of "fst el"] f by simp
    have M1: "\<And>k'. C this k' \<Longrightarrow> C t1 k'" using mono [OF Cons.prems(1), of _ "fst el"] f by simp
    show ?thesis
    proof (cases b)
      case False
      with f have f': "filt (fst el) this = (False, t1)" by simp
      from Cons.prems(2) [unfolded LinkDecl_reject [where filt = filt, OF noskip f']]
      have "LinkDecl env t1 dst src filt = (ok, dst', this')" .
      from Cons.IH [OF I1 this] C1 M1 show ?thesis by (cases el) auto
    next
      case True
      with f have f': "filt (fst el) this = (True, t1)" by simp
      show ?thesis
      proof (cases "AddLinkableMessageIR env dst (snd el)")
        case False
        from Cons.prems(2) [unfolded LinkDecl_refused [where filt = filt, OF noskip f' False]]
        have "\<not> ok" "this' = t1" by simp_all
        with I1 M1 show ?thesis by simp
      next
        case acc1: True
        let ?d = "dst\<lparr>linkable_messages := linkable_messages dst @ [snd el]\<rparr>"
        from Cons.prems(2) [unfolded LinkDecl_added [where filt = filt, OF noskip f' acc1]]
        have "LinkDecl env t1 ?d src filt = (ok, dst', this')" .
        from Cons.IH [OF I1 this] C1 M1 show ?thesis by (cases el) auto
      qed
    qed
  qed
qed

subsection \<open>Exact matches and accepted keys\<close>

lemma LinkFunctions_exact:
  assumes run: "LinkFunctions env this reader d = (True, d', this')"
    and el: "(k, e) \<in> set (reader Functions)"
    and ex: "k \<in> set (keys (function_decl_map this))"
    and prov: "exported_headers this = {} \<or> source_file e = [] \<or>
       source_file e \<in> exported_headers this"
  shows "e \<in> set (linkable_messages d')"
proof -
  let ?I = "\<lambda>t::HeaderAbiLinker. function_decl_map t = function_decl_map this \<and>
          exported_headers t = exported_headers this"
  let ?M = "\<lambda>k. k \<in> set (keys (function_decl_map this))"
  have inv: "\<And>k t. ?I t \<Longrightarrow> ?I (snd (functions_symbol_filter k t))"
    by (simp add: functions_symbol_filter_keeps)
  have must: "\<And>k t. ?I t \<Longrightarrow> ?M k \<Longrightarrow> fst (functions_symbol_filter k t)"
    by (simp add: functions_symbol_filter_exact)
  have hdr: "\<And>t. ?I t \<Longrightarrow> exported_headers t = exported_headers this" by simp
  have I0: "?I this" by simp
  from run have run': "LinkDecl env this d (reader Functions) functions_symbol_filter = (True, d', this')"
    by (simp only: LinkFunctions_def)
  show ?thesis
    by (rule LinkDecl_forwards [where I = ?I and M = ?M and filt = functions_symbol_filter,
          OF inv must hdr I0 run' el ex prov])
qed

lemma LinkFunctions_only:
  assumes run: "LinkFunctions env this reader d = (ok, d', this')"
  shows "\<exists>new. linkable_messages d' = linkable_messages d @ new \<and>
     (\<forall>e\<in>set new. \<exists>k. (k, e) \<in> set (reader Functions) \<and>
        (k \<in> set (keys (function_decl_map this)) \<or> regex_search k (functions_vs_regex this)))"
proof -
  let ?H = "exported_headers this"
  let ?I = "\<lambda>t::HeaderAbiLinker. function_decl_map t = function_decl_map this \<and>
          functions_vs_regex t = functions_vs_regex this \<and> exported_headers t = ?H"
  let ?A = "\<lambda>k. k \<in> set (keys (function_decl_map this)) \<or>
          regex_search k (functions_vs_regex this)"
  have inv: "\<And>k t. ?I t \<Longrightarrow> ?I (snd (functions_symbol_filter k t))"
    by (simp add: functions_symbol_filter_keeps)
  have acc: "?A k" if I: "?I t" and a: "fst (functions_symbol_filter k t)" for k t
  proof -
    from functions_symbol_filter_accepts [OF a]
    have "k \<in> set (keys (function_decl_map t)) \<or> regex_search k (functions_vs_regex t)"
      by blast
    with I show ?thesis by simp
  qed
  have acc': "\<And>k e t. ?I t \<Longrightarrow> (k, e) \<in> set (reader Functions) \<Longrightarrow>
      ?H = {} \<or> source_file e = [] \<or> source_file e \<in> ?H \<Longrightarrow>
      fst (functions_symbol_filter k t) \<Longrightarrow> ?A k"
    using acc by blast
  have hdr: "\<And>t. ?I t \<Longrightarrow> exported_headers t = ?H" by simp
  have I0: "?I this" by simp
  have sub: "set (reader Functions) \<subseteq> set (reader Functions)" by simp
  from run have run': "LinkDecl env this d (reader Functions) functions_symbol_filter = (ok, d', this')"
    by (simp only: LinkFunctions_def)
  have "?I this' \<and> elf_symbols d' = elf_symbols d \<and>
     (\<exists>new. linkable_messages d' = linkable_messages d @ new \<and>
        (\<forall>e\<in>set new. \<exists>k. (k, e) \<in> set (reader Functions) \<and> ?A k))"
    by (rule LinkDecl_generic [where I = ?I and Q = "\<lambda>k e. ?A k" and filt = functions_symbol_filter
        and srcs = "reader Functions" and H = ?H, OF inv acc' hdr I0 sub run'])
  then show ?thesis by (elim conjE)
qed

lemma LinkGlobalVars_exact:
  assumes run: "LinkGlobalVars env this reader d = (True, d', this')"
    and el: "(k, e) \<in> set (reader GlobalVariables)"
    and ex: "k \<in> set (keys (globvar_decl_map this))"
    and prov: "exported_headers this = {} \<or> source_file e = [] \<or>
       source_file e \<in> exported_headers this"
  shows "e \<in> set (linkable_messages d')"
proof -
  let ?I = "\<lambda>t::HeaderAbiLinker. globvar_decl_map t = globvar_decl_map this \<and>
          exported_headers t = exported_headers this"
  let ?M = "\<lambda>k. k \<in> set (keys (globvar_decl_map this))"
  have inv: "\<And>k t. ?I t \<Longrightarrow> ?I (snd (globvars_symbol_filter k t))"
    by (simp add: globvars_symbol_filter_keeps)
  have must: "\<And>k t. ?I t \<Longrightarrow> ?M k \<Longrightarrow> fst (globvars_symbol_filter k t)"
    by (simp add: globvars_symbol_filter_exact)
  have hdr: "\<And>t. ?I t \<Longrightarrow> exported_headers t = exported_headers this" by simp
  have I0: "?I this" by simp
  from run have run': "LinkDecl env this d (reader GlobalVariables) globvars_symbol_filter = (True, d', this')"
    by (simp only: LinkGlobalVars_def)
  show ?thesis
    by (rule LinkDecl_forwards [where I = ?I and M = ?M and filt = globvars_symbol_filter,
          OF inv must hdr I0 run' el ex prov])
qed

lemma LinkGlobalVars_only:
  assumes run: "LinkGlobalVars env this reader d = (ok, d', this')"
  shows "\<exists>new. linkable_messages d' = linkable_messages d @ new \<and>
     (\<forall>e\<in>set new. \<exists>k. (k, e) \<in> set (reader GlobalVariables) \<and>
        (k \<in> set (keys (globvar_decl_map this)) \<or> regex_search k (globvars_vs_regex this)))"
proof -
  let ?H = "exported_headers this"
  let ?I = "\<lambda>t::HeaderAbiLinker. globvar_decl_map t = globvar_decl_map this \<and>
          globvars_vs_regex t = globvars_vs_regex this \<and> exported_headers t = ?H"
  let ?A = "\<lambda>k. k \<in> set (keys (globvar_decl_map this)) \<or>
          regex_search k (globvars_vs_regex this)"
  have inv: "\<And>k t. ?I t \<Longrightarrow> ?I (snd (globvars_symbol_filter k t))"
    by (simp add: globvars_symbol_filter_keeps)
  have acc: "?A k" if I: "?I t" and a: "fst (globvars_symbol_filter k t)" for k t
  proof -
    from globvars_symbol_filter_accepts [OF a]
    have "k \<in> set (keys (globvar_decl_map t)) \<or> regex_search k (globvars_vs_regex t)"
      by blast
    with I show ?thesis by simp
  qed
  have acc': "\<And>k e t. ?I t \<Longrightarrow> (k, e) \<in> set (reader GlobalVariables) \<Longrightarrow>
      ?H = {} \<or> source_file e = [] \<or> source_file e \<in> ?H \<Longrightarrow>
      fst (globvars_symbol_filter k t) \<Longrightarrow> ?A k"
    using acc by blast
  have hdr: "\<And>t. ?I t \<Longrightarrow> exported_headers t = ?H" by simp
  have I0: "?I this" by simp
  have sub: "set (reader GlobalVariables) \<subseteq> set (reader GlobalVariables)" by simp
  from run have run': "LinkDecl env this d (reader GlobalVariables) globvars_symbol_filter = (ok, d', this')"
    by (simp only: LinkGlobalVars_def)
  have "?I this' \<and> elf_symbols d' = elf_symbols d \<and>
     (\<exists>new. linkable_messages d' = linkable_messages d @ new \<and>
        (\<forall>e\<in>set new. \<exists>k. (k, e) \<in> set (reader GlobalVariables) \<and> ?A k))"
    by (rule LinkDecl_generic [where I = ?I and Q = "\<lambda>k e. ?A k" and filt = globvars_symbol_filter
        and srcs = "reader GlobalVariables" and H = ?H, OF inv acc' hdr I0 sub run'])
  then show ?thesis by (elim conjE)
qed

subsection \<open>A pass fails only on a refusal\<close>

lemma LinkDecl_fails_on_refusal:
  "LinkDecl env this dst src filt = (False, dst', this') \<Longrightarrow>
   \<exists>d0 k0 e0. (k0, e0) \<in> set src \<and> \<not> AddLinkableMessageIR env d0 e0"
proof (induction src arbitrary: this dst)
  case Nil
  then show ?case by simp
next
  case (Cons el src)
  let ?skip = "exported_headers this \<noteq> {} \<and> source_file (snd el) \<noteq> [] \<and>
         source_file (snd el) \<notin> exported_headers this"
  have later: "\<exists>d0 k0 e0. (k0, e0) \<in> set (el # src) \<and> \<not> AddLinkableMessageIR env d0 e0"
    if "LinkDecl env t d src filt = (False, dst', this')" for t d
  proof -
    from Cons.IH [OF that] obtain d0 k0 e0 where
      "(k0, e0) \<in> set src" "\<not> AddLinkableMessageIR env d0 e0" by blast
    then have "(k0, e0) \<in> set (el # src) \<and> \<not> AddLinkableMessageIR env d0 e0" by simp
    then show ?thesis by blast
  qed
  show ?case
  proof (cases ?skip)
    case True
    from Cons.prems [unfolded LinkDecl_skip [OF True]] show ?thesis by (rule later)
  next
    case noskip: False
    obtain b t1 where f: "filt (fst el) this = (b, t1)" by (cases "filt (fst el) this")
    show ?thesis
    proof (cases b)
      case False
      with f have f': "filt (fst el) this = (False, t1)" by simp
      from Cons.prems [unfolded LinkDecl_reject [where filt = filt, OF noskip f']]
      show ?thesis by (rule later)
    next
      case True
      with f have f': "filt (fst el) this = (True, t1)" by simp
      show ?thesis
      proof (cases "AddLinkableMessageIR env dst (snd el)")
        case False
        have "(fst el, snd el) \<in> set (el # src)" by simp
        with False have "(fst el, snd el) \<in> set (el # src) \<and>
           \<not> AddLinkableMessageIR env dst (snd el)" by simp
        then show ?thesis by blast
      next
        case acc1: True
        from Cons.prems [unfolded LinkDecl_added [where filt = filt, OF noskip f' acc1]]
        show ?thesis by (rule later)
      qed
    qed
  qed
qed

lemma LinkFunctions_fails_on_refusal:
  "LinkFunctions env this reader d = (False, d', this') \<Longrightarrow>
   \<exists>d0 k0 e0. (k0, e0) \<in> set (reader Functions) \<and> \<not> AddLinkableMessageIR env d0 e0"
  unfolding LinkFunctions_def by (rule LinkDecl_fails_on_refusal)

lemma LinkGlobalVars_fails_on_refusal:
  "LinkGlobalVars env this reader d = (False, d', this') \<Longrightarrow>
   \<exists>d0 k0 e0. (k0, e0) \<in> set (reader GlobalVariables) \<and> \<not> AddLinkableMessageIR env d0 e0"
  unfolding LinkGlobalVars_def by (rule LinkDecl_fails_on_refusal)

subsection \<open>A second pass\<close>

lemma LinkFunctions_second_pass:
  assumes first: "LinkFunctions env this reader d = (True, d1, this1)"
    and second: "LinkFunctions env this1 reader d1 = (ok, d2, this2)"
  shows "\<exists>new. linkable_messages d2 = linkable_messages d1 @ new \<and>
     (\<forall>e\<in>set new. \<exists>k. (k, e) \<in> set (reader Functions) \<and>
        k \<in> set (keys (function_decl_map this)))"
proof -
  let ?H = "exported_headers this"
  let ?I = "\<lambda>t::HeaderAbiLinker. function_decl_map t = function_decl_map this \<and>
          functions_vs_regex t = functions_vs_regex this \<and> exported_headers t = ?H"
  let ?C = "\<lambda>(t::HeaderAbiLinker) k. k \<in> set (keys (function_decl_map this)) \<or>
          k \<in> functions_regex_matched_set t \<or> \<not> regex_search k (functions_vs_regex this)"
  let ?J = "\<lambda>t::HeaderAbiLinker. ?I t \<and> (\<forall>k e. (k, e) \<in> set (reader Functions) \<longrightarrow>
        (?H = {} \<or> source_file e = [] \<or> source_file e \<in> ?H) \<longrightarrow> ?C t k)"
  let ?A = "\<lambda>k. k \<in> set (keys (function_decl_map this))"
  have grow: "functions_regex_matched_set t \<subseteq> functions_regex_matched_set (snd (functions_symbol_filter k t))"
    for k t
    by (simp add: functions_symbol_filter_def QueryRegexMatches_def subset_insertI)
  have inv: "\<And>k t. ?I t \<Longrightarrow> ?I (snd (functions_symbol_filter k t))"
    by (simp add: functions_symbol_filter_keeps)
  have hdr: "\<And>t. ?I t \<Longrightarrow> exported_headers t = ?H" by simp
  have settle: "?C (snd (functions_symbol_filter k t)) k" if "?I t" for k t
  proof (cases "k \<in> set (keys (function_decl_map t)) \<or> k \<in> functions_regex_matched_set t \<or>
      \<not> regex_search k (functions_vs_regex t)")
    case True
    with that grow [of t k] show ?thesis by auto
  next
    case False
    then have "k \<in> functions_regex_matched_set (snd (functions_symbol_filter k t))"
      by (simp add: functions_symbol_filter_def QueryRegexMatches_def)
    then show ?thesis by simp
  qed
  have mono: "?C (snd (functions_symbol_filter k t)) k'" if "?I t" "?C t k'" for k k' t
    using that(2) grow [of t k] by auto
  have I0: "?I this" by simp
  from first have first': "LinkDecl env this d (reader Functions) functions_symbol_filter = (True, d1, this1)"
    by (simp only: LinkFunctions_def)
  from second have second': "LinkDecl env this1 d1 (reader Functions) functions_symbol_filter = (ok, d2, this2)"
    by (simp only: LinkFunctions_def)
  have "?I this1 \<and> (\<forall>k'. ?C this k' \<longrightarrow> ?C this1 k') \<and>
     (True \<longrightarrow> (\<forall>k e. (k, e) \<in> set (reader Functions) \<longrightarrow>
        (?H = {} \<or> source_file e = [] \<or> source_file e \<in> ?H) \<longrightarrow> ?C this1 k))"
    by (rule LinkDecl_settles [where I = ?I and C = ?C and filt = functions_symbol_filter
          and H = ?H, OF inv hdr settle mono I0 first'])
  then have J1: "?J this1" by simp
  have invJ: "?J (snd (functions_symbol_filter k t))" if J: "?J t" for k t
  proof -
    from J have I: "?I t" by (rule conjunct1)
    from J have all: "\<forall>k e. (k, e) \<in> set (reader Functions) \<longrightarrow>
        (?H = {} \<or> source_file e = [] \<or> source_file e \<in> ?H) \<longrightarrow> ?C t k"
      by (rule conjunct2)
    have "?I (snd (functions_symbol_filter k t))" using I by (rule inv)
    moreover have "\<forall>k' e. (k', e) \<in> set (reader Functions) \<longrightarrow>
        (?H = {} \<or> source_file e = [] \<or> source_file e \<in> ?H) \<longrightarrow>
        ?C (snd (functions_symbol_filter k t)) k'"
    proof (intro allI impI)
      fix k' e
      assume "(k', e) \<in> set (reader Functions)"
        "?H = {} \<or> source_file e = [] \<or> source_file e \<in> ?H"
      with all have "?C t k'" by blast
      with I show "?C (snd (functions_symbol_filter k t)) k'" by (rule mono)
    qed
    ultimately show ?thesis by (rule conjI)
  qed
  have accJ: "?A k" if J: "?J t" and el: "(k, e) \<in> set (reader Functions)"
      and pr: "?H = {} \<or> source_file e = [] \<or> source_file e \<in> ?H"
      and acc: "fst (functions_symbol_filter k t)" for k e t
  proof -
    from J have I: "?I t" by (rule conjunct1)
    from J have all: "\<forall>k e. (k, e) \<in> set (reader Functions) \<longrightarrow>
        (?H = {} \<or> source_file e = [] \<or> source_file e \<in> ?H) \<longrightarrow> ?C t k"
      by (rule conjunct2)
    from all el pr have c: "?C t k" by blast
    from functions_symbol_filter_accepts [OF acc]
    have "k \<in> set (keys (function_decl_map t)) \<or>
      (k \<notin> functions_regex_matched_set t \<and> regex_search k (functions_vs_regex t))" .
    with I have "k \<in> set (keys (function_decl_map this)) \<or>
      (k \<notin> functions_regex_matched_set t \<and> regex_search k (functions_vs_regex this))" by simp
    with c show ?thesis by blast
  qed
  have hdrJ: "\<And>t. ?J t \<Longrightarrow> exported_headers t = ?H" by simp
  have sub: "set (reader Functions) \<subseteq> set (reader Functions)" by simp
  have "?J this2 \<and> elf_symbols d2 = elf_symbols d1 \<and>
     (\<exists>new. linkable_messages d2 = linkable_messages d1 @ new \<and>
        (\<forall>e\<in>set new. \<exists>k. (k, e) \<in> set (reader Functions) \<and> ?A k))"
    by (rule LinkDecl_generic [where I = ?J and Q = "\<lambda>k e. ?A k"
        and filt = functions_symbol_filter and srcs = "reader Functions" and H = ?H,
        OF invJ accJ hdrJ J1 sub second'])
  then show ?thesis by (elim conjE)
qed

lemma LinkGlobalVars_second_pass:
  assumes first: "LinkGlobalVars env this reader d = (True, d1, this1)"
    and second: "LinkGlobalVars env this1 reader d1 = (ok, d2, this2)"
  shows "\<exists>new. linkable_messages d2 = linkable_messages d1 @ new \<and>
     (\<forall>e\<in>set new. \<exists>k. (k, e) \<in> set (reader GlobalVariables) \<and>
        k \<in> set (keys (globvar_decl_map this)))"
proof -
  let ?H = "exported_headers this"
  let ?I = "\<lambda>t::HeaderAbiLinker. globvar_decl_map t = globvar_decl_map this \<and>
          globvars_vs_regex t = globvars_vs_regex this \<and> exported_headers t = ?H"
  let ?C = "\<lambda>(t::HeaderAbiLinker) k. k \<in> set (keys (globvar_decl_map this)) \<or>
          k \<in> globvars_regex_matched_set t \<or> \<not> regex_search k (globvars_vs_regex this)"
  let ?J = "\<lambda>t::HeaderAbiLinker. ?I t \<and> (\<forall>k e. (k, e) \<in> set (reader GlobalVariables) \<longrightarrow>
        (?H = {} \<or> source_file e = [] \<or> source_file e \<in> ?H) \<longrightarrow> ?C t k)"
  let ?A = "\<lambda>k. k \<in> set (keys (globvar_decl_map this))"
  have grow: "globvars_regex_matched_set t \<subseteq> globvars_regex_matched_set (snd (globvars_symbol_filter k t))"
    for k t
    by (simp add: globvars_symbol_filter_def QueryRegexMatches_def subset_insertI)
  have inv: "\<And>k t. ?I t \<Longrightarrow> ?I (snd (globvars_symbol_filter k t))"
    by (simp add: globvars_symbol_filter_keeps)
  have hdr: "\<And>t. ?I t \<Longrightarrow> exported_headers t = ?H" by simp
  have settle: "?C (snd (globvars_symbol_filter k t)) k" if "?I t" for k t
  proof (cases "k \<in> set (keys (globvar_decl_map t)) \<or> k \<in> globvars_regex_matched_set t \<or>
      \<not> regex_search k (globvars_vs_regex t)")
    case True
    with that grow [of t k] show ?thesis by auto
  next
    case False
    then have "k \<in> globvars_regex_matched_set (snd (globvars_symbol_filter k t))"
      by (simp add: globvars_symbol_filter_def QueryRegexMatches_def)
    then show ?thesis by simp
  qed
  have mono: "?C (snd (globvars_symbol_filter k t)) k'" if "?I t" "?C t k'" for k k' t
    using that(2) grow [of t k] by auto
  have I0: "?I this" by simp
  from first have first': "LinkDecl env this d (reader GlobalVariables) globvars_symbol_filter = (True, d1, this1)"
    by (simp only: LinkGlobalVars_def)
  from second have second': "LinkDecl env this1 d1 (reader GlobalVariables) globvars_symbol_filter = (ok, d2, this2)"
    by (simp only: LinkGlobalVars_def)
  have "?I this1 \<and> (\<forall>k'. ?C this k' \<longrightarrow> ?C this1 k') \<and>
     (True \<longrightarrow> (\<forall>k e. (k, e) \<in> set (reader GlobalVariables) \<longrightarrow>
        (?H = {} \<or> source_file e = [] \<or> source_file e \<in> ?H) \<longrightarrow> ?C this1 k))"
    by (rule LinkDecl_settles [where I = ?I and C = ?C and filt = globvars_symbol_filter
          and H = ?H, OF inv hdr settle mono I0 first'])
  then have J1: "?J this1" by simp
  have invJ: "?J (snd (globvars_symbol_filter k t))" if J: "?J t" for k t
  proof -
    from J have I: "?I t" by (rule conjunct1)
    from J have all: "\<forall>k e. (k, e) \<in> set (reader GlobalVariables) \<longrightarrow>
        (?H = {} \<or> source_file e = [] \<or> source_file e \<in> ?H) \<longrightarrow> ?C t k"
      by (rule conjunct2)
    have "?I (snd (globvars_symbol_filter k t))" using I by (rule inv)
    moreover have "\<forall>k' e. (k', e) \<in> set (reader GlobalVariables) \<longrightarrow>
        (?H = {} \<or> source_file e = [] \<or> source_file e \<in> ?H) \<longrightarrow>
        ?C (snd (globvars_symbol_filter k t)) k'"
    proof (intro allI impI)
      fix k' e
      assume "(k', e) \<in> set (reader GlobalVariables)"
        "?H = {} \<or> source_file e = [] \<or> source_file e \<in> ?H"
      with all have "?C t k'" by blast
      with I show "?C (snd (globvars_symbol_filter k t)) k'" by (rule mono)
    qed
    ultimately show ?thesis by (rule conjI)
  qed
  have accJ: "?A k" if J: "?J t" and el: "(k, e) \<in> set (reader GlobalVariables)"
      and pr: "?H = {} \<or> source_file e = [] \<or> source_file e \<in> ?H"
      and acc: "fst (globvars_symbol_filter k t)" for k e t
  proof -
    from J have I: "?I t" by (rule conjunct1)
    from J have all: "\<forall>k e. (k, e) \<in> set (reader GlobalVariables) \<longrightarrow>
        (?H = {} \<or> source_file e = [] \<or> source_file e \<in> ?H) \<longrightarrow> ?C t k"
      by (rule conjunct2)
    from all el pr have c: "?C t k" by blast
    from globvars_symbol_filter_accepts [OF acc]
    have "k \<in> set (keys (globvar_decl_map t)) \<or>
      (k \<notin> globvars_regex_matched_set t \<and> regex_search k (globvars_vs_regex t))" .
    with I have "k \<in> set (keys (globvar_decl_map this)) \<or>
      (k \<notin> globvars_regex_matched_set t \<and> regex_search k (globvars_vs_regex this))" by simp
    with c show ?thesis by blast
  qed
  have hdrJ: "\<And>t. ?J t \<Longrightarrow> exported_headers t = ?H" by simp
  have sub: "set (reader GlobalVariables) \<subseteq> set (reader GlobalVariables)" by simp
  have "?J this2 \<and> elf_symbols d2 = elf_symbols d1 \<and>
     (\<exists>new. linkable_messages d2 = linkable_messages d1 @ new \<and>
        (\<forall>e\<in>set new. \<exists>k. (k, e) \<in> set (reader GlobalVariables) \<and> ?A k))"
    by (rule LinkDecl_generic [where I = ?J and Q = "\<lambda>k e. ?A k"
        and filt = globvars_symbol_filter and srcs = "reader GlobalVariables" and H = ?H,
        OF invJ accJ hdrJ J1 sub second'])
  then show ?thesis by (elim conjE)
qed

subsection \<open>The chain of type categories\<close>

lemma LinkDecl_chain_grows:
  "LinkDecl_chain env this dst reader cs = (ok, dst', this') \<Longrightarrow>
   set (linkable_messages dst) \<subseteq> set (linkable_messages dst')"
proof (induction cs arbitrary: this dst)
  case Nil
  then show ?case by simp
next
  case (Cons c cs)
  obtain b d1 t1 where l: "LinkDecl env this dst (reader c) no_filter_lambda = (b, d1, t1)"
    by (cases "LinkDecl env this dst (reader c) no_filter_lambda")
  note g = LinkDecl_grows [OF l]
  show ?case
  proof (cases b)
    case False
    with l Cons.prems have "dst' = d1" by simp
    with g show ?thesis by simp
  next
    case True
    with l Cons.prems have "LinkDecl_chain env t1 d1 reader cs = (ok, dst', this')" by simp
    from Cons.IH [OF this] g show ?thesis by blast
  qed
qed

lemma LinkDecl_chain_forwards:
  "LinkDecl_chain env this dst reader cs = (True, dst', this') \<Longrightarrow> c \<in> set cs \<Longrightarrow>
   (k, e) \<in> set (reader c) \<Longrightarrow>
   exported_headers this = {} \<or> source_file e = [] \<or> source_file e \<in> exported_headers this \<Longrightarrow>
   e \<in> set (linkable_messages dst')"
proof (induction cs arbitrary: this dst)
  case Nil
  then show ?case by simp
next
  case (Cons c' cs)
  let ?I = "\<lambda>t::HeaderAbiLinker. exported_headers t = exported_headers this"
  obtain b d1 t1 where l: "LinkDecl env this dst (reader c') no_filter_lambda = (b, d1, t1)"
    by (cases "LinkDecl env this dst (reader c') no_filter_lambda")
  from l Cons.prems(1) have b: "b" by (cases b) simp_all
  with l Cons.prems(1) have rest: "LinkDecl_chain env t1 d1 reader cs = (True, dst', this')"
    by simp
  from b l have l': "LinkDecl env this dst (reader c') no_filter_lambda = (True, d1, t1)" by simp
  have h1: "exported_headers t1 = exported_headers this"
    using LinkDecl_provenance [OF _ l] by simp
  show ?case
  proof (cases "c = c'")
    case True
    have inv: "\<And>k t. ?I t \<Longrightarrow> ?I (snd (no_filter_lambda k t))" by simp
    have must: "\<And>k t. ?I t \<Longrightarrow> True \<Longrightarrow> fst (no_filter_lambda k t)" by simp
    have hdr: "\<And>t. ?I t \<Longrightarrow> exported_headers t = exported_headers this" by simp
    have I0: "?I this" by simp
    from Cons.prems(3) True have el: "(k, e) \<in> set (reader c')" by simp
    have "e \<in> set (linkable_messages d1)"
      by (rule LinkDecl_forwards [where I = ?I and M = "\<lambda>k. True" and filt = no_filter_lambda,
            OF inv must hdr I0 l' el TrueI Cons.prems(4)])
    with LinkDecl_chain_grows [OF rest] show ?thesis by blast
  next
    case False
    with Cons.prems(2) have "c \<in> set cs" by simp
    from Cons.IH [OF rest this Cons.prems(3)] Cons.prems(4) h1 show ?thesis by simp
  qed
qed

lemma link_elements_types:
  assumes run: "link_elements env this reader d = (True, d', this')"
    and c: "c \<in> set type_categories" and el: "(k, e) \<in> set (reader c)"
    and prov: "exported_headers this = {} \<or> source_file e = [] \<or>
       source_file e \<in> exported_headers this"
  shows "e \<in> set (linkable_messages d')"
proof -
  obtain b1 d1 t1 where l1: "LinkTypes env this reader d = (b1, d1, t1)"
    by (cases "LinkTypes env this reader d")
  from l1 run have b1: "b1" by (cases b1) (simp_all add: link_elements_def)
  obtain b2 d2 t2 where l2: "LinkFunctions env t1 reader d1 = (b2, d2, t2)"
    by (cases "LinkFunctions env t1 reader d1")
  from l1 l2 b1 run have b2: "b2" by (cases b2) (simp_all add: link_elements_def)
  from l1 l2 b1 b2 run have l3: "LinkGlobalVars env t2 reader d2 = (True, d', this')"
    by (simp add: link_elements_def)
  from l1 b1 have "LinkDecl_chain env this d reader type_categories = (True, d1, t1)"
    by (simp add: LinkTypes_def)
  from LinkDecl_chain_forwards [OF this c el prov] have "e \<in> set (linkable_messages d1)" .
  with LinkDecl_grows [OF l2 [unfolded LinkFunctions_def]]
    LinkDecl_grows [OF l3 [unfolded LinkGlobalVars_def]]
  show ?thesis by blast
qed

subsection \<open>LinkAndDump\<close>

lemma ParseVersionScriptFiles_keeps:
  "ParseVersionScriptFiles env opts this = Returns (ok, this', e) \<Longrightarrow>
   exported_headers this' = exported_headers this"
  by (auto simp: ParseVersionScriptFiles_def split: option.splits)

lemma resolve_exports_version_script:
  assumes so: "so_file opts = []"
    and re: "resolve_exports env opts this = Returns (ok, this', e)"
  shows "exported_headers this' = exported_headers this"
proof (cases "ParseVersionScriptFiles env opts this")
  case (Returns x)
  obtain b t e' where x: "x = (b, t, e')" by (cases x)
  from ParseVersionScriptFiles_keeps [OF Returns [unfolded x]]
  have "exported_headers t = exported_headers this" .
  moreover from re so Returns x have "this' = t"
    by (cases b) (simp_all add: resolve_exports_def)
  ultimately show ?thesis by simp
next
  case (Exits n)
  with re so show ?thesis by (simp add: resolve_exports_def)
next
  case Throws
  with re so show ?thesis by (simp add: resolve_exports_def)
next
  case Pending
  with re so show ?thesis by (simp add: resolve_exports_def)
qed

lemma resolve_exports_ignores_dirs:
  "so_file opts = [] \<Longrightarrow>
   resolve_exports env (opts\<lparr>exported_header_dirs := dirs\<rparr>) this = resolve_exports env opts this"
  by (simp add: resolve_exports_def ParseVersionScriptFiles_def)

lemma LinkAndDump_ignores_dirs:
  assumes "so_file opts = []"
  shows "LinkAndDump env schedule (opts\<lparr>exported_header_dirs := dirs\<rparr>)
    = LinkAndDump env schedule opts"
proof -
  have d: "dump_files (opts\<lparr>exported_header_dirs := dirs\<rparr>) = dump_files opts" by simp
  show ?thesis
    unfolding LinkAndDump_def resolve_exports_ignores_dirs [OF assms] d by (rule refl)
qed

lemma LinkAndDump_unfold:
  assumes run: "LinkAndDump env schedule opts = Returns r"
  shows "\<exists>ok this e. resolve_exports env opts new_HeaderAbiLinker = Returns (ok, this, e) \<and>
     (\<not> ok \<longrightarrow> \<not> returned r \<and> linker r = this \<and> ir_dumper r = None) \<and>
     (ok \<longrightarrow> (\<exists>s b d this'.
        DeDuplicateAbiElements (ReadDump env (exported_headers this))
          (hardware_concurrency env) schedule (dump_files opts) = Returns s \<and>
        link_elements env this (greader s) (snd (AddElfSymbols env this CreateIRDumper))
          = (b, d, this') \<and>
        linker r = this' \<and> ir_dumper r = Some d \<and> returned r = (b \<and> Dump env d)))"
proof (cases "resolve_exports env opts new_HeaderAbiLinker")
  case (Returns x)
  obtain ok this e where x: "x = (ok, this, e)" by (cases x)
  note re = Returns [unfolded x]
  show ?thesis
  proof (cases ok)
    case False
    with re run have "\<not> returned r \<and> linker r = this \<and> ir_dumper r = None"
      by (auto simp: LinkAndDump_def)
    with re False show ?thesis
      by (intro exI [of _ ok] exI [of _ this] exI [of _ e]) simp
  next
    case True
    let ?d0 = "snd (AddElfSymbols env this CreateIRDumper)"
    let ?agg = "DeDuplicateAbiElements (ReadDump env (exported_headers this))
          (hardware_concurrency env) schedule (dump_files opts)"
    from re True run have run': "(case ?agg of
          Exits n \<Rightarrow> Exits n | Throws \<Rightarrow> Throws | Pending \<Rightarrow> Pending
        | Returns s \<Rightarrow>
            (case link_elements env this (greader s) ?d0 of
               (False, d, this') \<Rightarrow>
                 Returns \<lparr>returned = False,
                   errs = e @ [''Failed to add element to linked dump'',
                               ''Failed to link elements''],
                   linker = this', ir_dumper = Some d\<rparr>
             | (True, d, this') \<Rightarrow>
                 if \<not> Dump env d
                 then Returns \<lparr>returned = False,
                        errs = e @ [''Serialization to ostream failed''],
                        linker = this', ir_dumper = Some d\<rparr>
                 else Returns \<lparr>returned = True, errs = e, linker = this',
                        ir_dumper = Some d\<rparr>)) = Returns r"
      by (simp add: LinkAndDump_def Let_def)
    then obtain s where s: "?agg = Returns s" by (cases ?agg) simp_all
    obtain b d this' where l: "link_elements env this (greader s) ?d0 = (b, d, this')"
      by (cases "link_elements env this (greader s) ?d0")
    from run' s l have "linker r = this' \<and> ir_dumper r = Some d \<and>
        returned r = (b \<and> Dump env d)"
      by (cases b; cases "Dump env d") auto
    with re True s l show ?thesis
      by (intro exI [of _ ok] exI [of _ this] exI [of _ e]) simp
  qed
next
  case (Exits n)
  with run show ?thesis by (simp add: LinkAndDump_def)
next
  case Throws
  with run show ?thesis by (simp add: LinkAndDump_def)
next
  case Pending
  with run show ?thesis by (simp add: LinkAndDump_def)
qed

section \<open>The claims about linking\<close>

text \<open>
  Claim C5. Whatever linking adds to the sink is a declaration of the merged graph for
  which the exported header set is empty, or whose source file is empty, or whose
  source file is in the set. With the exported header set \<open>{A}\<close> and declarations
  from \<open>A\<close>, from \<open>B\<close> and without source file, the first and the last are linked;
  with the empty set all three are.
\<close>

theorem linked_only_if_header_exported:
  "(link_elements env this reader d = (ok, d', this') \<longrightarrow>
      (\<exists>new. linkable_messages d' = linkable_messages d @ new \<and>
         (\<forall>e\<in>set new. (\<exists>c k. (k, e) \<in> set (reader c)) \<and>
            (exported_headers this = {} \<or> source_file e = [] \<or>
             source_file e \<in> exported_headers this)))) \<and>
   linkable_messages (fst (snd (LinkTypes example_env
       (new_HeaderAbiLinker\<lparr>exported_headers := {''A''}\<rparr>) three_provenances CreateIRDumper)))
     = [decl ''A'' ''t1'', decl [] ''t3''] \<and>
   linkable_messages (fst (snd (LinkTypes example_env
       new_HeaderAbiLinker three_provenances CreateIRDumper)))
     = [decl ''A'' ''t1'', decl ''B'' ''t2'', decl [] ''t3'']"
proof (intro conjI impI)
  assume "link_elements env this reader d = (ok, d', this')"
  from link_elements_provenance [OF this]
  show "\<exists>new. linkable_messages d' = linkable_messages d @ new \<and>
         (\<forall>e\<in>set new. (\<exists>c k. (k, e) \<in> set (reader c)) \<and>
            (exported_headers this = {} \<or> source_file e = [] \<or>
             source_file e \<in> exported_headers this))"
    by (elim conjE)
next
  show "linkable_messages (fst (snd (LinkTypes example_env
       (new_HeaderAbiLinker\<lparr>exported_headers := {''A''}\<rparr>) three_provenances CreateIRDumper)))
     = [decl ''A'' ''t1'', decl [] ''t3'']"
    by code_simp
next
  show "linkable_messages (fst (snd (LinkTypes example_env
       new_HeaderAbiLinker three_provenances CreateIRDumper)))
     = [decl ''A'' ''t1'', decl ''B'' ''t2'', decl [] ''t3'']"
    by code_simp
qed

theorem linked_only_if_header_exported_witness:
  "decl ''B'' ''t2'' \<notin> set (linkable_messages (fst (snd (link_elements example_env
       (new_HeaderAbiLinker\<lparr>exported_headers := {''A''}\<rparr>) three_provenances CreateIRDumper))))"
proof -
  let ?L = "new_HeaderAbiLinker\<lparr>exported_headers := {''A''}\<rparr>"
  obtain ok d' this' where
    l: "link_elements example_env ?L three_provenances CreateIRDumper = (ok, d', this')"
    by (cases "link_elements example_env ?L three_provenances CreateIRDumper")
  from linked_only_if_header_exported [THEN conjunct1, THEN mp, OF l]
  obtain new where n: "linkable_messages d' = linkable_messages CreateIRDumper @ new"
    and p: "\<forall>e\<in>set new. (\<exists>c k. (k, e) \<in> set (three_provenances c)) \<and>
            (exported_headers ?L = {} \<or> source_file e = [] \<or>
             source_file e \<in> exported_headers ?L)"
    by (elim exE conjE)
  have "decl ''B'' ''t2'' \<notin> set new"
  proof
    assume "decl ''B'' ''t2'' \<in> set new"
    with p have "exported_headers ?L = {} \<or> source_file (decl ''B'' ''t2'') = [] \<or>
             source_file (decl ''B'' ''t2'') \<in> exported_headers ?L" by blast
    then show False by (simp add: decl_def)
  qed
  with n l show ?thesis by (simp add: CreateIRDumper_def)
qed

text \<open>
  Claim C6 says that a function whose key is in the exact map is forwarded to the
  sink. \<^verbatim>\<open>LinkDecl\<close> returns at the first declaration that the sink refuses, and
  the declarations after it are not offered to the sink: with a sink that refuses
  \<open>f1\<close>, the function \<open>f2\<close>, whose key is in the exact map and which passes the
  provenance filter, is not linked.
\<close>

theorem refused_declaration_ends_the_pass:
  "(''f2'', decl ''b.h'' ''f2'') \<in> set (two_functions Functions) \<and>
   ''f2'' \<in> set (keys (function_decl_map f1_f2_exported)) \<and>
   exported_headers f1_f2_exported = {} \<and>
   fst (LinkFunctions f1_refusing_env f1_f2_exported two_functions CreateIRDumper) = False \<and>
   linkable_messages (fst (snd
     (LinkFunctions f1_refusing_env f1_f2_exported two_functions CreateIRDumper))) = []"
proof (intro conjI)
  show "(''f2'', decl ''b.h'' ''f2'') \<in> set (two_functions Functions)"
    by (simp add: two_functions_def dump_of_def)
  show "''f2'' \<in> set (keys (function_decl_map f1_f2_exported))"
    by (simp add: f1_f2_exported_def keys_def)
  show "exported_headers f1_f2_exported = {}"
    by (simp add: f1_f2_exported_def new_HeaderAbiLinker_def)
qed code_simp+

text \<open>
  Claim C6, as the program has it. A pass of \<^verbatim>\<open>LinkFunctions\<close> fails only when the
  sink refuses one of the functions of the merged graph. When the pass succeeds, as
  it does with a sink that refuses nothing, every function of the merged graph that
  passes the provenance filter and whose key is in the exact map is in the sink,
  whatever the wildcard expression and the set of recorded matches are. Whatever the
  pass adds to the sink has its key in the exact map or matched by the wildcard
  expression. The same holds of \<^verbatim>\<open>LinkGlobalVars\<close>.
\<close>

theorem exact_match_is_linked:
  "(LinkFunctions env this reader d = (False, d', this') \<longrightarrow>
      (\<exists>d0 k0 e0. (k0, e0) \<in> set (reader Functions) \<and> \<not> AddLinkableMessageIR env d0 e0)) \<and>
   (LinkGlobalVars env this reader d = (False, d', this') \<longrightarrow>
      (\<exists>d0 k0 e0. (k0, e0) \<in> set (reader GlobalVariables) \<and>
         \<not> AddLinkableMessageIR env d0 e0)) \<and>
   (LinkFunctions env this reader d = (True, d', this') \<and>
    (k, e) \<in> set (reader Functions) \<and> k \<in> set (keys (function_decl_map this)) \<and>
    (exported_headers this = {} \<or> source_file e = [] \<or> source_file e \<in> exported_headers this)
      \<longrightarrow> e \<in> set (linkable_messages d')) \<and>
   (LinkGlobalVars env this reader d = (True, d', this') \<and>
    (k, e) \<in> set (reader GlobalVariables) \<and> k \<in> set (keys (globvar_decl_map this)) \<and>
    (exported_headers this = {} \<or> source_file e = [] \<or> source_file e \<in> exported_headers this)
      \<longrightarrow> e \<in> set (linkable_messages d')) \<and>
   (LinkFunctions env this reader d = (ok, d', this') \<longrightarrow>
      (\<exists>new. linkable_messages d' = linkable_messages d @ new \<and>
         (\<forall>e\<in>set new. \<exists>k. (k, e) \<in> set (reader Functions) \<and>
            (k \<in> set (keys (function_decl_map this)) \<or>
             regex_search k (functions_vs_regex this))))) \<and>
   (LinkGlobalVars env this reader d = (ok, d', this') \<longrightarrow>
      (\<exists>new. linkable_messages d' = linkable_messages d @ new \<and>
         (\<forall>e\<in>set new. \<exists>k. (k, e) \<in> set (reader GlobalVariables) \<and>
            (k \<in> set (keys (globvar_decl_map this)) \<or>
             regex_search k (globvars_vs_regex this))))) \<and>
   ((\<forall>d0 e0. AddLinkableMessageIR env d0 e0) \<and>
    (k, e) \<in> set (reader Functions) \<and> k \<in> set (keys (function_decl_map this)) \<and>
    (exported_headers this = {} \<or> source_file e = [] \<or> source_file e \<in> exported_headers this)
      \<longrightarrow> fst (LinkFunctions env this reader d) \<and>
          e \<in> set (linkable_messages (fst (snd (LinkFunctions env this reader d))))) \<and>
   ((\<forall>d0 e0. AddLinkableMessageIR env d0 e0) \<and>
    (k, e) \<in> set (reader GlobalVariables) \<and> k \<in> set (keys (globvar_decl_map this)) \<and>
    (exported_headers this = {} \<or> source_file e = [] \<or> source_file e \<in> exported_headers this)
      \<longrightarrow> fst (LinkGlobalVars env this reader d) \<and>
          e \<in> set (linkable_messages (fst (snd (LinkGlobalVars env this reader d)))))"
proof (intro conjI impI)
  assume "LinkFunctions env this reader d = (False, d', this')"
  then show "\<exists>d0 k0 e0. (k0, e0) \<in> set (reader Functions) \<and> \<not> AddLinkableMessageIR env d0 e0"
    by (rule LinkFunctions_fails_on_refusal)
next
  assume "LinkGlobalVars env this reader d = (False, d', this')"
  then show "\<exists>d0 k0 e0. (k0, e0) \<in> set (reader GlobalVariables) \<and>
     \<not> AddLinkableMessageIR env d0 e0"
    by (rule LinkGlobalVars_fails_on_refusal)
next
  assume "LinkFunctions env this reader d = (True, d', this') \<and>
    (k, e) \<in> set (reader Functions) \<and> k \<in> set (keys (function_decl_map this)) \<and>
    (exported_headers this = {} \<or> source_file e = [] \<or> source_file e \<in> exported_headers this)"
  then show "e \<in> set (linkable_messages d')"
    by (elim conjE) (rule LinkFunctions_exact)
next
  assume "LinkGlobalVars env this reader d = (True, d', this') \<and>
    (k, e) \<in> set (reader GlobalVariables) \<and> k \<in> set (keys (globvar_decl_map this)) \<and>
    (exported_headers this = {} \<or> source_file e = [] \<or> source_file e \<in> exported_headers this)"
  then show "e \<in> set (linkable_messages d')"
    by (elim conjE) (rule LinkGlobalVars_exact)
next
  assume "LinkFunctions env this reader d = (ok, d', this')"
  then show "\<exists>new. linkable_messages d' = linkable_messages d @ new \<and>
         (\<forall>e\<in>set new. \<exists>k. (k, e) \<in> set (reader Functions) \<and>
            (k \<in> set (keys (function_decl_map this)) \<or>
             regex_search k (functions_vs_regex this)))"
    by (rule LinkFunctions_only)
next
  assume "LinkGlobalVars env this reader d = (ok, d', this')"
  then show "\<exists>new. linkable_messages d' = linkable_messages d @ new \<and>
         (\<forall>e\<in>set new. \<exists>k. (k, e) \<in> set (reader GlobalVariables) \<and>
            (k \<in> set (keys (globvar_decl_map this)) \<or>
             regex_search k (globvars_vs_regex this)))"
    by (rule LinkGlobalVars_only)
next
  assume a: "(\<forall>d0 e0. AddLinkableMessageIR env d0 e0) \<and>
    (k, e) \<in> set (reader Functions) \<and> k \<in> set (keys (function_decl_map this)) \<and>
    (exported_headers this = {} \<or> source_file e = [] \<or> source_file e \<in> exported_headers this)"
  obtain b d1 t1 where l: "LinkFunctions env this reader d = (b, d1, t1)"
    by (cases "LinkFunctions env this reader d")
  have b: "b"
  proof (rule ccontr)
    assume "\<not> b"
    with l have "LinkFunctions env this reader d = (False, d1, t1)" by simp
    from LinkFunctions_fails_on_refusal [OF this] a show False by blast
  qed
  with l have lt: "LinkFunctions env this reader d = (True, d1, t1)" by simp
  from a have "(k, e) \<in> set (reader Functions)" "k \<in> set (keys (function_decl_map this))"
    "exported_headers this = {} \<or> source_file e = [] \<or> source_file e \<in> exported_headers this"
    by simp_all
  from LinkFunctions_exact [OF lt this] have "e \<in> set (linkable_messages d1)" .
  with lt show "fst (LinkFunctions env this reader d)"
    and "e \<in> set (linkable_messages (fst (snd (LinkFunctions env this reader d))))"
    by simp_all
next
  assume a: "(\<forall>d0 e0. AddLinkableMessageIR env d0 e0) \<and>
    (k, e) \<in> set (reader GlobalVariables) \<and> k \<in> set (keys (globvar_decl_map this)) \<and>
    (exported_headers this = {} \<or> source_file e = [] \<or> source_file e \<in> exported_headers this)"
  obtain b d1 t1 where l: "LinkGlobalVars env this reader d = (b, d1, t1)"
    by (cases "LinkGlobalVars env this reader d")
  have b: "b"
  proof (rule ccontr)
    assume "\<not> b"
    with l have "LinkGlobalVars env this reader d = (False, d1, t1)" by simp
    from LinkGlobalVars_fails_on_refusal [OF this] a show False by blast
  qed
  with l have lt: "LinkGlobalVars env this reader d = (True, d1, t1)" by simp
  from a have "(k, e) \<in> set (reader GlobalVariables)"
    "k \<in> set (keys (globvar_decl_map this))"
    "exported_headers this = {} \<or> source_file e = [] \<or> source_file e \<in> exported_headers this"
    by simp_all
  from LinkGlobalVars_exact [OF lt this] have "e \<in> set (linkable_messages d1)" .
  with lt show "fst (LinkGlobalVars env this reader d)"
    and "e \<in> set (linkable_messages (fst (snd (LinkGlobalVars env this reader d))))"
    by simp_all
qed

theorem exact_match_is_linked_witness:
  "fst (LinkFunctions example_env f1_exported two_functions CreateIRDumper) \<and>
   decl ''a.h'' ''f1'' \<in> set (linkable_messages (fst (snd
      (LinkFunctions example_env f1_exported two_functions CreateIRDumper)))) \<and>
   decl ''b.h'' ''f2'' \<notin> set (linkable_messages (fst (snd
      (LinkFunctions example_env f1_exported two_functions CreateIRDumper)))) \<and>
   fst (LinkGlobalVars example_env g1_exported two_globals CreateIRDumper) \<and>
   decl ''a.h'' ''g1'' \<in> set (linkable_messages (fst (snd
      (LinkGlobalVars example_env g1_exported two_globals CreateIRDumper)))) \<and>
   decl ''b.h'' ''g2'' \<notin> set (linkable_messages (fst (snd
      (LinkGlobalVars example_env g1_exported two_globals CreateIRDumper))))"
proof -
  obtain b d' this' where
    l: "LinkFunctions example_env f1_exported two_functions CreateIRDumper = (b, d', this')"
    by (cases "LinkFunctions example_env f1_exported two_functions CreateIRDumper")
  have accepts: "AddLinkableMessageIR example_env d0 e0" for d0 e0
    by (simp add: example_env_def)
  have b: "b"
  proof (rule ccontr)
    assume "\<not> b"
    with l have
      "LinkFunctions example_env f1_exported two_functions CreateIRDumper = (False, d', this')"
      by simp
    from exact_match_is_linked [THEN conjunct1, THEN mp, OF this] accepts
    show False by blast
  qed
  with l have lt:
    "LinkFunctions example_env f1_exported two_functions CreateIRDumper = (True, d', this')"
    by simp
  have h: "LinkFunctions example_env f1_exported two_functions CreateIRDumper = (True, d', this') \<and>
    (''f1'', decl ''a.h'' ''f1'') \<in> set (two_functions Functions) \<and>
    ''f1'' \<in> set (keys (function_decl_map f1_exported)) \<and>
    (exported_headers f1_exported = {} \<or> source_file (decl ''a.h'' ''f1'') = [] \<or>
     source_file (decl ''a.h'' ''f1'') \<in> exported_headers f1_exported)"
    using lt by (simp add: two_functions_def dump_of_def f1_exported_def keys_def
        new_HeaderAbiLinker_def)
  from exact_match_is_linked [THEN conjunct2, THEN conjunct2, THEN conjunct1, THEN mp, OF h]
  have in1: "decl ''a.h'' ''f1'' \<in> set (linkable_messages d')" .
  from exact_match_is_linked [THEN conjunct2, THEN conjunct2, THEN conjunct2, THEN conjunct2,
      THEN conjunct1, THEN mp, OF lt]
  obtain new where n: "linkable_messages d' = linkable_messages CreateIRDumper @ new"
    and p: "\<forall>e\<in>set new. \<exists>k. (k, e) \<in> set (two_functions Functions) \<and>
            (k \<in> set (keys (function_decl_map f1_exported)) \<or>
             regex_search k (functions_vs_regex f1_exported))"
    by (elim exE conjE)
  have "decl ''b.h'' ''f2'' \<notin> set new"
  proof
    assume "decl ''b.h'' ''f2'' \<in> set new"
    with p obtain k where "(k, decl ''b.h'' ''f2'') \<in> set (two_functions Functions)"
      "k \<in> set (keys (function_decl_map f1_exported)) \<or>
             regex_search k (functions_vs_regex f1_exported)" by blast
    then show False
      by (auto simp: two_functions_def dump_of_def f1_exported_def keys_def
          new_HeaderAbiLinker_def decl_def)
  qed
  with n have out2: "decl ''b.h'' ''f2'' \<notin> set (linkable_messages d')"
    by (simp add: CreateIRDumper_def)
  obtain c g' that' where
    g: "LinkGlobalVars example_env g1_exported two_globals CreateIRDumper = (c, g', that')"
    by (cases "LinkGlobalVars example_env g1_exported two_globals CreateIRDumper")
  have c: "c"
  proof (rule ccontr)
    assume "\<not> c"
    with g have
      "LinkGlobalVars example_env g1_exported two_globals CreateIRDumper = (False, g', that')"
      by simp
    from exact_match_is_linked [THEN conjunct2, THEN conjunct1, THEN mp, OF this] accepts
    show False by blast
  qed
  with g have gt:
    "LinkGlobalVars example_env g1_exported two_globals CreateIRDumper = (True, g', that')"
    by simp
  have hg: "LinkGlobalVars example_env g1_exported two_globals CreateIRDumper = (True, g', that') \<and>
    (''g1'', decl ''a.h'' ''g1'') \<in> set (two_globals GlobalVariables) \<and>
    ''g1'' \<in> set (keys (globvar_decl_map g1_exported)) \<and>
    (exported_headers g1_exported = {} \<or> source_file (decl ''a.h'' ''g1'') = [] \<or>
     source_file (decl ''a.h'' ''g1'') \<in> exported_headers g1_exported)"
    using gt by (simp add: two_globals_def g1_exported_def keys_def new_HeaderAbiLinker_def)
  from exact_match_is_linked [THEN conjunct2, THEN conjunct2, THEN conjunct2, THEN conjunct1,
      THEN mp, OF hg]
  have in2: "decl ''a.h'' ''g1'' \<in> set (linkable_messages g')" .
  from exact_match_is_linked [THEN conjunct2, THEN conjunct2, THEN conjunct2, THEN conjunct2,
      THEN conjunct2, THEN conjunct1, THEN mp, OF gt]
  obtain added where na: "linkable_messages g' = linkable_messages CreateIRDumper @ added"
    and pa: "\<forall>e\<in>set added. \<exists>k. (k, e) \<in> set (two_globals GlobalVariables) \<and>
            (k \<in> set (keys (globvar_decl_map g1_exported)) \<or>
             regex_search k (globvars_vs_regex g1_exported))"
    by (elim exE conjE)
  have "decl ''b.h'' ''g2'' \<notin> set added"
  proof
    assume "decl ''b.h'' ''g2'' \<in> set added"
    with pa obtain k where "(k, decl ''b.h'' ''g2'') \<in> set (two_globals GlobalVariables)"
      "k \<in> set (keys (globvar_decl_map g1_exported)) \<or>
             regex_search k (globvars_vs_regex g1_exported)" by blast
    then show False
      by (auto simp: two_globals_def g1_exported_def keys_def new_HeaderAbiLinker_def decl_def)
  qed
  with na have out3: "decl ''b.h'' ''g2'' \<notin> set (linkable_messages g')"
    by (simp add: CreateIRDumper_def)
  have f7: "(\<forall>d0 e0. AddLinkableMessageIR example_env d0 e0) \<and>
    (''f1'', decl ''a.h'' ''f1'') \<in> set (two_functions Functions) \<and>
    ''f1'' \<in> set (keys (function_decl_map f1_exported)) \<and>
    (exported_headers f1_exported = {} \<or> source_file (decl ''a.h'' ''f1'') = [] \<or>
     source_file (decl ''a.h'' ''f1'') \<in> exported_headers f1_exported)"
    using accepts by (simp add: two_functions_def dump_of_def f1_exported_def keys_def
        new_HeaderAbiLinker_def)
  from exact_match_is_linked [where reader = two_functions, THEN conjunct2, THEN conjunct2,
      THEN conjunct2, THEN conjunct2, THEN conjunct2, THEN conjunct2, THEN conjunct1, THEN mp,
      OF f7]
  have a7: "fst (LinkFunctions example_env f1_exported two_functions CreateIRDumper) \<and>
    decl ''a.h'' ''f1'' \<in> set (linkable_messages (fst (snd
      (LinkFunctions example_env f1_exported two_functions CreateIRDumper))))" .
  have f8: "(\<forall>d0 e0. AddLinkableMessageIR example_env d0 e0) \<and>
    (''g1'', decl ''a.h'' ''g1'') \<in> set (two_globals GlobalVariables) \<and>
    ''g1'' \<in> set (keys (globvar_decl_map g1_exported)) \<and>
    (exported_headers g1_exported = {} \<or> source_file (decl ''a.h'' ''g1'') = [] \<or>
     source_file (decl ''a.h'' ''g1'') \<in> exported_headers g1_exported)"
    using accepts by (simp add: two_globals_def g1_exported_def keys_def new_HeaderAbiLinker_def)
  from exact_match_is_linked [where reader = two_globals, THEN conjunct2, THEN conjunct2,
      THEN conjunct2, THEN conjunct2, THEN conjunct2, THEN conjunct2, THEN conjunct2, THEN mp,
      OF f8]
  have a8: "fst (LinkGlobalVars example_env g1_exported two_globals CreateIRDumper) \<and>
    decl ''a.h'' ''g1'' \<in> set (linkable_messages (fst (snd
      (LinkGlobalVars example_env g1_exported two_globals CreateIRDumper))))" .
  from lt gt b c in1 out2 in2 out3 a7 a8 show ?thesis by simp
qed

lemma QueryRegexMatches_grows:
  "regex_matched_link_set \<subseteq> snd (QueryRegexMatches regex_matched_link_set vs_regex symbol)"
  by (auto simp: QueryRegexMatches_def)

lemma QueryRegexMatches_later:
  "symbol \<in> m \<Longrightarrow> symbol \<in> foldl (\<lambda>m k. snd (QueryRegexMatches m vs_regex k)) m later"
proof (induction later arbitrary: m)
  case Nil
  then show ?case by simp
next
  case (Cons k later)
  from Cons.prems QueryRegexMatches_grows [of m vs_regex k]
  have "symbol \<in> snd (QueryRegexMatches m vs_regex k)" by blast
  from Cons.IH [OF this] show ?case by simp
qed

lemma QueryRegexMatches_seen:
  "symbol \<in> m \<Longrightarrow> QueryRegexMatches m vs_regex symbol = (False, m)"
  by (simp add: QueryRegexMatches_def)

lemma QueryRegexMatches_records:
  "fst (QueryRegexMatches m vs_regex symbol) \<Longrightarrow> symbol \<in> snd (QueryRegexMatches m vs_regex symbol)"
  by (auto simp: QueryRegexMatches_def split: if_splits)

text \<open>
  Claim C8. Once \<^verbatim>\<open>QueryRegexMatches\<close> has returned true for a key, the key is in the
  matched set, and after any further queries a query of the same key returns false and
  leaves the set as it is. So a second pass of \<^verbatim>\<open>LinkFunctions\<close> or
  \<^verbatim>\<open>LinkGlobalVars\<close> over the same graph adds no declaration again that the
  wildcard expression had accepted: what it adds has its key in the exact map.
\<close>

theorem wildcard_test_true_at_most_once:
  "(fst (QueryRegexMatches m vs_regex symbol) \<longrightarrow>
      QueryRegexMatches
        (foldl (\<lambda>m k. snd (QueryRegexMatches m vs_regex k))
           (snd (QueryRegexMatches m vs_regex symbol)) later) vs_regex symbol
      = (False, foldl (\<lambda>m k. snd (QueryRegexMatches m vs_regex k))
           (snd (QueryRegexMatches m vs_regex symbol)) later)) \<and>
   (symbol \<in> m \<longrightarrow> QueryRegexMatches m vs_regex symbol = (False, m)) \<and>
   (LinkFunctions env this reader d = (True, d1, this1) \<and>
    LinkFunctions env this1 reader d1 = (ok, d2, this2) \<longrightarrow>
      (\<exists>new. linkable_messages d2 = linkable_messages d1 @ new \<and>
         (\<forall>e\<in>set new. \<exists>k. (k, e) \<in> set (reader Functions) \<and>
            k \<in> set (keys (function_decl_map this))))) \<and>
   (LinkGlobalVars env this reader d = (True, d1, this1) \<and>
    LinkGlobalVars env this1 reader d1 = (ok, d2, this2) \<longrightarrow>
      (\<exists>new. linkable_messages d2 = linkable_messages d1 @ new \<and>
         (\<forall>e\<in>set new. \<exists>k. (k, e) \<in> set (reader GlobalVariables) \<and>
            k \<in> set (keys (globvar_decl_map this)))))"
proof (intro conjI impI)
  assume "fst (QueryRegexMatches m vs_regex symbol)"
  then have "symbol \<in> snd (QueryRegexMatches m vs_regex symbol)"
    by (rule QueryRegexMatches_records)
  then have "symbol \<in> foldl (\<lambda>m k. snd (QueryRegexMatches m vs_regex k))
           (snd (QueryRegexMatches m vs_regex symbol)) later"
    by (rule QueryRegexMatches_later)
  then show "QueryRegexMatches
        (foldl (\<lambda>m k. snd (QueryRegexMatches m vs_regex k))
           (snd (QueryRegexMatches m vs_regex symbol)) later) vs_regex symbol
      = (False, foldl (\<lambda>m k. snd (QueryRegexMatches m vs_regex k))
           (snd (QueryRegexMatches m vs_regex symbol)) later)"
    by (rule QueryRegexMatches_seen)
next
  assume "symbol \<in> m"
  then show "QueryRegexMatches m vs_regex symbol = (False, m)" by (rule QueryRegexMatches_seen)
next
  assume "LinkFunctions env this reader d = (True, d1, this1) \<and>
    LinkFunctions env this1 reader d1 = (ok, d2, this2)"
  then show "\<exists>new. linkable_messages d2 = linkable_messages d1 @ new \<and>
         (\<forall>e\<in>set new. \<exists>k. (k, e) \<in> set (reader Functions) \<and>
            k \<in> set (keys (function_decl_map this)))"
    by (elim conjE) (rule LinkFunctions_second_pass)
next
  assume "LinkGlobalVars env this reader d = (True, d1, this1) \<and>
    LinkGlobalVars env this1 reader d1 = (ok, d2, this2)"
  then show "\<exists>new. linkable_messages d2 = linkable_messages d1 @ new \<and>
         (\<forall>e\<in>set new. \<exists>k. (k, e) \<in> set (reader GlobalVariables) \<and>
            k \<in> set (keys (globvar_decl_map this)))"
    by (elim conjE) (rule LinkGlobalVars_second_pass)
qed

theorem wildcard_test_true_at_most_once_witness:
  "QueryRegexMatches {} g_star ''g_x'' = (True, {''g_x''}) \<and>
   QueryRegexMatches (foldl (\<lambda>m k. snd (QueryRegexMatches m g_star k))
       (snd (QueryRegexMatches {} g_star ''g_x'')) [''g_y'', ''h'']) g_star ''g_x''
     = (False, {''g_y'', ''g_x''})"
proof -
  have first: "QueryRegexMatches {} g_star ''g_x'' = (True, {''g_x''})"
    by code_simp
  then have "fst (QueryRegexMatches {} g_star ''g_x'')" by simp
  from wildcard_test_true_at_most_once [THEN conjunct1, THEN mp, OF this, of "[''g_y'', ''h'']"]
  have "QueryRegexMatches (foldl (\<lambda>m k. snd (QueryRegexMatches m g_star k))
       (snd (QueryRegexMatches {} g_star ''g_x'')) [''g_y'', ''h'']) g_star ''g_x''
     = (False, foldl (\<lambda>m k. snd (QueryRegexMatches m g_star k))
       (snd (QueryRegexMatches {} g_star ''g_x'')) [''g_y'', ''h''])" .
  moreover have "foldl (\<lambda>m k. snd (QueryRegexMatches m g_star k))
       (snd (QueryRegexMatches {} g_star ''g_x'')) [''g_y'', ''h''] = {''g_y'', ''g_x''}"
    by code_simp
  ultimately show ?thesis using first by simp
qed

text \<open>
  Claim C10. Without \<^verbatim>\<open>-so\<close> the exported header set stays empty: the export
  directories change nothing in the run, the linker ends with the empty set, and every
  type declaration of the merged graph is in the sink of a successful run, whatever
  its source file.
\<close>

theorem version_script_mode_has_no_exported_headers:
  "so_file opts = [] \<longrightarrow>
     (resolve_exports env opts new_HeaderAbiLinker = Returns (ok, this, e) \<longrightarrow>
        exported_headers this = {}) \<and>
     LinkAndDump env schedule (opts\<lparr>exported_header_dirs := dirs\<rparr>)
       = LinkAndDump env schedule opts \<and>
     (LinkAndDump env schedule opts = Returns r \<longrightarrow> exported_headers (linker r) = {}) \<and>
     (LinkAndDump env schedule opts = Returns r \<and> returned r \<and>
      DeDuplicateAbiElements (ReadDump env {}) (hardware_concurrency env) schedule
        (dump_files opts) = Returns s \<and>
      c \<in> set type_categories \<and> (k, x) \<in> set (greader s c) \<longrightarrow>
        (\<exists>d. ir_dumper r = Some d \<and> x \<in> set (linkable_messages d)))"
proof (intro impI conjI)
  assume so: "so_file opts = []"
  have new: "exported_headers new_HeaderAbiLinker = {}" by (simp add: new_HeaderAbiLinker_def)
  {
    assume "resolve_exports env opts new_HeaderAbiLinker = Returns (ok, this, e)"
    from resolve_exports_version_script [OF so this] new
    show "exported_headers this = {}" by simp
  }
  show "LinkAndDump env schedule (opts\<lparr>exported_header_dirs := dirs\<rparr>)
       = LinkAndDump env schedule opts"
    using so by (rule LinkAndDump_ignores_dirs)
  {
    assume run: "LinkAndDump env schedule opts = Returns r"
    from LinkAndDump_unfold [OF run] obtain ok' this0 e' where
      re: "resolve_exports env opts new_HeaderAbiLinker = Returns (ok', this0, e')"
      and no: "\<not> ok' \<longrightarrow> \<not> returned r \<and> linker r = this0 \<and> ir_dumper r = None"
      and yes: "ok' \<longrightarrow> (\<exists>s b d this'.
        DeDuplicateAbiElements (ReadDump env (exported_headers this0))
          (hardware_concurrency env) schedule (dump_files opts) = Returns s \<and>
        link_elements env this0 (greader s) (snd (AddElfSymbols env this0 CreateIRDumper))
          = (b, d, this') \<and>
        linker r = this' \<and> ir_dumper r = Some d \<and> returned r = (b \<and> Dump env d))"
      by (elim exE conjE)
    from resolve_exports_version_script [OF so re] new
    have h0: "exported_headers this0 = {}" by simp
    show "exported_headers (linker r) = {}"
    proof (cases ok')
      case False
      with no h0 show ?thesis by simp
    next
      case True
      from yes [THEN mp, OF True] obtain s' b d this' where
        "DeDuplicateAbiElements (ReadDump env (exported_headers this0))
          (hardware_concurrency env) schedule (dump_files opts) = Returns s'"
        and l: "link_elements env this0 (greader s') (snd (AddElfSymbols env this0 CreateIRDumper))
          = (b, d, this')" and r: "linker r = this'"
        and "ir_dumper r = Some d" "returned r = (b \<and> Dump env d)" by (elim exE conjE)
      from link_elements_provenance [OF l] r h0 show ?thesis by simp
    qed
  }
  {
    assume a: "LinkAndDump env schedule opts = Returns r \<and> returned r \<and>
      DeDuplicateAbiElements (ReadDump env {}) (hardware_concurrency env) schedule
        (dump_files opts) = Returns s \<and>
      c \<in> set type_categories \<and> (k, x) \<in> set (greader s c)"
    note run = a [THEN conjunct1]
      and ret = a [THEN conjunct2, THEN conjunct1]
      and agg = a [THEN conjunct2, THEN conjunct2, THEN conjunct1]
      and c = a [THEN conjunct2, THEN conjunct2, THEN conjunct2, THEN conjunct1]
      and el = a [THEN conjunct2, THEN conjunct2, THEN conjunct2, THEN conjunct2]
    from LinkAndDump_unfold [OF run] obtain ok' this0 e' where
      re: "resolve_exports env opts new_HeaderAbiLinker = Returns (ok', this0, e')"
      and no: "\<not> ok' \<longrightarrow> \<not> returned r \<and> linker r = this0 \<and> ir_dumper r = None"
      and yes: "ok' \<longrightarrow> (\<exists>s b d this'.
        DeDuplicateAbiElements (ReadDump env (exported_headers this0))
          (hardware_concurrency env) schedule (dump_files opts) = Returns s \<and>
        link_elements env this0 (greader s) (snd (AddElfSymbols env this0 CreateIRDumper))
          = (b, d, this') \<and>
        linker r = this' \<and> ir_dumper r = Some d \<and> returned r = (b \<and> Dump env d))"
      by (elim exE conjE)
    from resolve_exports_version_script [OF so re] new
    have h0: "exported_headers this0 = {}" by simp
    from no ret have "ok'" by blast
    from yes [THEN mp, OF this] obtain s' b d this' where
      agg': "DeDuplicateAbiElements (ReadDump env (exported_headers this0))
          (hardware_concurrency env) schedule (dump_files opts) = Returns s'"
      and l: "link_elements env this0 (greader s') (snd (AddElfSymbols env this0 CreateIRDumper))
          = (b, d, this')"
      and r: "ir_dumper r = Some d" "returned r = (b \<and> Dump env d)" by (elim exE conjE)
    from agg agg' h0 have "s' = s" by simp
    from r ret have "b" by simp
    with l \<open>s' = s\<close> have l': "link_elements env this0 (greader s)
        (snd (AddElfSymbols env this0 CreateIRDumper)) = (True, d, this')" by simp
    from h0 have "exported_headers this0 = {} \<or> source_file x = [] \<or>
       source_file x \<in> exported_headers this0" by simp
    from link_elements_types [OF l' c el this] r(1)
    show "\<exists>d. ir_dumper r = Some d \<and> x \<in> set (linkable_messages d)" by simp
  }
qed

theorem version_script_mode_has_no_exported_headers_witness:
  "so_file only_version_script = [] \<and>
   exported_header_dirs only_version_script = [''include''] \<and>
   LinkAndDump example_env [0, 0] only_version_script
     = LinkAndDump example_env [0, 0] (only_version_script\<lparr>exported_header_dirs := []\<rparr>) \<and>
   main example_env [0, 0] only_version_script =
     Returns \<lparr>exit_code = 0, diagnostics = [],
       dumper = Some \<lparr>elf_symbols = [''f1''],
         linkable_messages = [decl ''a.h'' ''t1'', decl ''b.h'' ''t2'', decl [] ''int'',
                              decl ''a.h'' ''f1'']\<rparr>\<rparr>"
proof -
  have so: "so_file (only_version_script\<lparr>exported_header_dirs := []\<rparr>) = []"
    by (simp add: only_version_script_def example_options_def)
  have restore: "only_version_script\<lparr>exported_header_dirs := []\<rparr>\<lparr>exported_header_dirs := [''include'']\<rparr>
      = only_version_script"
    by (simp add: only_version_script_def example_options_def)
  from version_script_mode_has_no_exported_headers [THEN mp, OF so, THEN conjunct2, THEN conjunct1,
      of example_env "[0, 0]" "[''include'']"]
  have same: "LinkAndDump example_env [0, 0] only_version_script
     = LinkAndDump example_env [0, 0] (only_version_script\<lparr>exported_header_dirs := []\<rparr>)"
    by (simp only: restore)
  have "main example_env [0, 0] only_version_script =
     Returns \<lparr>exit_code = 0, diagnostics = [],
       dumper = Some \<lparr>elf_symbols = [''f1''],
         linkable_messages = [decl ''a.h'' ''t1'', decl ''b.h'' ''t2'', decl [] ''int'',
                              decl ''a.h'' ''f1'']\<rparr>\<rparr>"
    by code_simp
  with same show ?thesis by (simp add: only_version_script_def example_options_def)
qed

lemma resolve_exports_ignores_version_script:
  "so_file opts \<noteq> [] \<Longrightarrow>
   resolve_exports env (opts\<lparr>version_script := v\<rparr>) this = resolve_exports env opts this"
  by (simp add: resolve_exports_def ParseSoFile_def)

lemma LinkAndDump_ignores_version_script:
  assumes "so_file opts \<noteq> []"
  shows "LinkAndDump env schedule (opts\<lparr>version_script := v\<rparr>) = LinkAndDump env schedule opts"
proof -
  have d: "dump_files (opts\<lparr>version_script := v\<rparr>) = dump_files opts" by simp
  show ?thesis
    unfolding LinkAndDump_def resolve_exports_ignores_version_script [OF assms] d by (rule refl)
qed

section \<open>The claims about the command line and the sink\<close>

text \<open>
  Claim C3 says that the program exits with an error when both \<^verbatim>\<open>-so\<close> and
  \<^verbatim>\<open>-v\<close> are given. It does not: with both, the run succeeds.
\<close>

theorem both_flags_run:
  "so_file both_flags \<noteq> [] \<and> version_script both_flags \<noteq> [] \<and>
   main example_env [0, 0] both_flags =
     Returns \<lparr>exit_code = 0, diagnostics = [],
       dumper = Some \<lparr>elf_symbols = [''f1''],
         linkable_messages = [decl ''a.h'' ''t1'', decl ''b.h'' ''t2'', decl [] ''int'',
                              decl ''a.h'' ''f1'']\<rparr>\<rparr>"
  by code_simp

text \<open>
  Claim C3, as the program has it. With neither \<^verbatim>\<open>-so\<close> nor \<^verbatim>\<open>-v\<close>,
  \<^verbatim>\<open>main\<close> returns -1 after the line "One of -so or -v needs to be specified" and
  links nothing. With \<^verbatim>\<open>-so\<close>, the version script is not read: the run is the run
  without \<^verbatim>\<open>-v\<close>.
\<close>

theorem neither_flag_fails_and_so_file_wins:
  "(so_file opts = [] \<and> version_script opts = [] \<longrightarrow>
      main env schedule opts =
        Returns \<lparr>exit_code = - 1,
          diagnostics = [''One of -so or -v needs to be specified''], dumper = None\<rparr>) \<and>
   (so_file opts \<noteq> [] \<longrightarrow>
      main env schedule opts = main env schedule (opts\<lparr>version_script := []\<rparr>))"
proof (intro conjI impI)
  assume "so_file opts = [] \<and> version_script opts = []"
  then show "main env schedule opts =
        Returns \<lparr>exit_code = - 1,
          diagnostics = [''One of -so or -v needs to be specified''], dumper = None\<rparr>"
    by (simp add: main_def)
next
  assume so: "so_file opts \<noteq> []"
  show "main env schedule opts = main env schedule (opts\<lparr>version_script := []\<rparr>)"
  proof (cases "no_filter opts")
    case True
    have comm: "opts\<lparr>version_script := [], exported_header_dirs := []\<rparr>
      = opts\<lparr>exported_header_dirs := [], version_script := []\<rparr>"
      by (cases opts) simp
    from so have "so_file (opts\<lparr>exported_header_dirs := []\<rparr>) \<noteq> []" by simp
    from LinkAndDump_ignores_version_script [OF this, of env schedule "[]"]
    have "LinkAndDump env schedule (opts\<lparr>version_script := [], exported_header_dirs := []\<rparr>)
      = LinkAndDump env schedule (opts\<lparr>exported_header_dirs := []\<rparr>)"
      by (simp only: comm)
    with so True show ?thesis by (simp add: main_def)
  next
    case False
    with so LinkAndDump_ignores_version_script [OF so, of env schedule "[]"]
    show ?thesis by (simp add: main_def)
  qed
qed

theorem neither_flag_fails_and_so_file_wins_witness:
  "main example_env [0, 0] example_options =
     Returns \<lparr>exit_code = - 1,
       diagnostics = [''One of -so or -v needs to be specified''], dumper = None\<rparr> \<and>
   main example_env [0, 0] both_flags = main example_env [0, 0] only_so"
proof -
  have a: "so_file example_options = [] \<and> version_script example_options = []"
    by (simp add: example_options_def)
  have b: "so_file both_flags \<noteq> []" by (simp add: both_flags_def)
  have c: "both_flags\<lparr>version_script := []\<rparr> = only_so"
    by (simp add: both_flags_def only_so_def example_options_def)
  from neither_flag_fails_and_so_file_wins [THEN conjunct1, THEN mp, OF a]
    neither_flag_fails_and_so_file_wins [THEN conjunct2, THEN mp, OF b]
  show ?thesis by (simp only: c)
qed

text \<open>
  Claim C9 says that a run fails whenever the sink refuses an entity. A refused
  declaration does end the run with -1; a refused exported-symbol record does not:
  \<^verbatim>\<open>LinkAndDump\<close> drops the value of \<^verbatim>\<open>AddElfSymbols\<close>, the run goes on and
  \<^verbatim>\<open>main\<close> returns 0 with the record missing from the output.
\<close>

theorem refused_elf_symbol_is_not_reported:
  "main elf_refusing_env [0, 0] only_so =
     Returns \<lparr>exit_code = 0, diagnostics = [],
       dumper = Some \<lparr>elf_symbols = [],
         linkable_messages = [decl ''a.h'' ''t1'', decl ''b.h'' ''t2'', decl [] ''int'',
                              decl ''a.h'' ''f1'']\<rparr>\<rparr> \<and>
   main decl_refusing_env [0, 0] only_so =
     Returns \<lparr>exit_code = - 1,
       diagnostics = [''Failed to add element to linked dump'', ''Failed to link elements'',
                      ''Failed to link and dump elements''],
       dumper = Some \<lparr>elf_symbols = [''f1''], linkable_messages = []\<rparr>\<rparr>"
  by code_simp

section \<open>The claims about the wildcard matcher\<close>

subsection \<open>Matching a pattern of stars, dots and ordinary characters\<close>

lemma ends_seq_of: "ends (seq_of rs) s P = foldl (\<lambda>Q r. ends r s Q) P rs"
  by (induction rs arbitrary: P rule: seq_of.induct) simp_all

lemma star_any_rounds:
  "set (((\<lambda>Q. remdups (P @ ends AnyChar s Q)) ^^ n) P) =
     {j. \<exists>i\<in>set P. i \<le> j \<and> j \<le> i + n \<and>
        (\<forall>m. i \<le> m \<and> m < j \<longrightarrow> m < length s \<and> \<not> is_line_terminator (s ! m))}"
proof (induction n)
  case 0
  show ?case
  proof (rule set_eqI)
    fix j
    show "j \<in> set (((\<lambda>Q. remdups (P @ ends AnyChar s Q)) ^^ 0) P) \<longleftrightarrow>
      j \<in> {j. \<exists>i\<in>set P. i \<le> j \<and> j \<le> i + 0 \<and>
        (\<forall>m. i \<le> m \<and> m < j \<longrightarrow> m < length s \<and> \<not> is_line_terminator (s ! m))}"
      by auto
  qed
next
  case (Suc n)
  let ?F = "\<lambda>Q. remdups (P @ ends AnyChar s Q)"
  let ?R = "\<lambda>i j. \<forall>m. i \<le> m \<and> m < j \<longrightarrow> m < length s \<and> \<not> is_line_terminator (s ! m)"
  have step: "set ((?F ^^ Suc n) P) =
      set P \<union> Suc ` {q \<in> set ((?F ^^ n) P). q < length s \<and> \<not> is_line_terminator (s ! q)}"
    by auto
  show ?case
  proof (rule set_eqI)
    fix j
    show "j \<in> set ((?F ^^ Suc n) P) \<longleftrightarrow>
       j \<in> {j. \<exists>i\<in>set P. i \<le> j \<and> j \<le> i + Suc n \<and> ?R i j}"
    proof
      assume "j \<in> set ((?F ^^ Suc n) P)"
      with step have "j \<in> set P \<or>
        (\<exists>q. j = Suc q \<and> q \<in> set ((?F ^^ n) P) \<and> q < length s \<and> \<not> is_line_terminator (s ! q))"
        by auto
      then show "j \<in> {j. \<exists>i\<in>set P. i \<le> j \<and> j \<le> i + Suc n \<and> ?R i j}"
      proof
        assume "j \<in> set P"
        then have "j \<in> set P \<and> j \<le> j \<and> j \<le> j + Suc n \<and> ?R j j" by auto
        then show ?thesis by blast
      next
        assume "\<exists>q. j = Suc q \<and> q \<in> set ((?F ^^ n) P) \<and> q < length s \<and>
          \<not> is_line_terminator (s ! q)"
        then obtain q where q: "j = Suc q" "q \<in> set ((?F ^^ n) P)" "q < length s"
          "\<not> is_line_terminator (s ! q)" by blast
        from q(2) Suc.IH obtain i where i: "i \<in> set P" "i \<le> q" "q \<le> i + n" "?R i q"
          by auto
        have "?R i (Suc q)"
        proof (intro allI impI)
          fix m assume m: "i \<le> m \<and> m < Suc q"
          show "m < length s \<and> \<not> is_line_terminator (s ! m)"
          proof (cases "m = q")
            case True
            with q show ?thesis by simp
          next
            case False
            with m have "i \<le> m \<and> m < q" by simp
            with i(4) show ?thesis by blast
          qed
        qed
        with i q(1) have "i \<in> set P \<and> i \<le> j \<and> j \<le> i + Suc n \<and> ?R i j" by simp
        then show ?thesis by blast
      qed
    next
      assume "j \<in> {j. \<exists>i\<in>set P. i \<le> j \<and> j \<le> i + Suc n \<and> ?R i j}"
      then obtain i where i: "i \<in> set P" "i \<le> j" "j \<le> i + Suc n" "?R i j" by blast
      show "j \<in> set ((?F ^^ Suc n) P)"
      proof (cases "j = i")
        case True
        with i(1) step show ?thesis by simp
      next
        case False
        with i(2) obtain q where q: "j = Suc q" "i \<le> q" by (cases j) auto
        from i(4) q have last: "q < length s \<and> \<not> is_line_terminator (s ! q)" by simp
        from i(4) q(1) have "?R i q" by simp
        with i(1,3) q have "q \<in> {j. \<exists>i\<in>set P. i \<le> j \<and> j \<le> i + n \<and> ?R i j}" by auto
        with Suc.IH have "q \<in> set ((?F ^^ n) P)" by simp
        with last q(1) step show ?thesis by simp
      qed
    qed
  qed
qed

lemma set_ends_star_any:
  "set (ends (Star AnyChar) s P) =
     {j. \<exists>i\<in>set P. i \<le> j \<and>
        (\<forall>m. i \<le> m \<and> m < j \<longrightarrow> m < length s \<and> \<not> is_line_terminator (s ! m))}"
proof -
  let ?R = "\<lambda>i j. \<forall>m. i \<le> m \<and> m < j \<longrightarrow> m < length s \<and> \<not> is_line_terminator (s ! m)"
  have bound: "j \<le> i + length s" if "i \<le> j" "?R i j" for i j
  proof (cases "j = i")
    case True
    then show ?thesis by simp
  next
    case False
    with that(1) have "i \<le> j - 1 \<and> j - 1 < j" by simp
    with that(2) have "j - 1 < length s" by blast
    then show ?thesis by simp
  qed
  have "set (ends (Star AnyChar) s P) =
      {j. \<exists>i\<in>set P. i \<le> j \<and> j \<le> i + length s \<and> ?R i j}"
    using star_any_rounds [where P = P and s = s and n = "length s"] by simp
  also have "\<dots> = {j. \<exists>i\<in>set P. i \<le> j \<and> ?R i j}"
    using bound by blast
  finally show ?thesis .
qed

lemma drop_eq_Cons:
  "drop i s = d # t \<longleftrightarrow> i < length s \<and> s ! i = d \<and> drop (Suc i) s = t"
proof
  assume a: "drop i s = d # t"
  then have i: "i < length s" by (cases "i < length s") auto
  from Cons_nth_drop_Suc [OF i] a show "i < length s \<and> s ! i = d \<and> drop (Suc i) s = t"
    using i by simp
next
  assume "i < length s \<and> s ! i = d \<and> drop (Suc i) s = t"
  then show "drop i s = d # t" using Cons_nth_drop_Suc [of i s] by auto
qed

lemma run_of_word:
  "drop i s = w @ drop j s \<Longrightarrow> j = i + length w \<Longrightarrow> \<forall>c\<in>set w. \<not> is_line_terminator c \<Longrightarrow>
   i \<le> j \<and> (\<forall>m. i \<le> m \<and> m < j \<longrightarrow> m < length s \<and> \<not> is_line_terminator (s ! m))"
proof (induction w arbitrary: i)
  case Nil
  then show ?case by auto
next
  case (Cons d w)
  from Cons.prems(1) have "drop i s = d # (w @ drop j s)" by simp
  then have i: "i < length s" "s ! i = d" "drop (Suc i) s = w @ drop j s"
    by (simp_all add: drop_eq_Cons)
  from Cons.prems(2) have j: "j = Suc i + length w" by simp
  from Cons.prems(3) have w: "\<forall>c\<in>set w. \<not> is_line_terminator c" and d: "\<not> is_line_terminator d"
    by simp_all
  from Cons.IH [OF i(3) j w]
  have ih: "\<forall>m. Suc i \<le> m \<and> m < j \<longrightarrow> m < length s \<and> \<not> is_line_terminator (s ! m)" by simp
  have "\<forall>m. i \<le> m \<and> m < j \<longrightarrow> m < length s \<and> \<not> is_line_terminator (s ! m)"
  proof (intro allI impI)
    fix m assume m: "i \<le> m \<and> m < j"
    show "m < length s \<and> \<not> is_line_terminator (s ! m)"
    proof (cases "m = i")
      case True
      with i d show ?thesis by simp
    next
      case False
      with m have "Suc i \<le> m \<and> m < j" by simp
      with ih show ?thesis by blast
    qed
  qed
  with j show ?case by simp
qed

lemma word_of_run:
  "i \<le> j \<Longrightarrow> \<forall>m. i \<le> m \<and> m < j \<longrightarrow> m < length s \<and> \<not> is_line_terminator (s ! m) \<Longrightarrow>
   \<exists>w. drop i s = w @ drop j s \<and> j = i + length w \<and> (\<forall>c\<in>set w. \<not> is_line_terminator c)"
proof (induction "j - i" arbitrary: i)
  case 0
  then have "j = i" by simp
  then have "drop i s = [] @ drop j s \<and> j = i + length ([] :: string) \<and>
     (\<forall>c\<in>set ([] :: string). \<not> is_line_terminator c)" by simp
  then show ?case by blast
next
  case (Suc n)
  from Suc.hyps(2) have lt: "i < j" by simp
  with Suc.prems(2) have i: "i < length s" "\<not> is_line_terminator (s ! i)" by simp_all
  have n: "n = j - Suc i" using Suc.hyps(2) by simp
  have le: "Suc i \<le> j" using lt by simp
  have run: "\<forall>m. Suc i \<le> m \<and> m < j \<longrightarrow> m < length s \<and> \<not> is_line_terminator (s ! m)"
    using Suc.prems(2) by simp
  from Suc.hyps(1) [OF n le run] obtain w where
    w: "drop (Suc i) s = w @ drop j s" "j = Suc i + length w" "\<forall>c\<in>set w. \<not> is_line_terminator c"
    by blast
  from i(1) w(1) have "drop i s = (s ! i # w) @ drop j s"
    by (simp add: drop_eq_Cons)
  moreover from w(2) have "j = i + length (s ! i # w)" by simp
  moreover from w(3) i(2) have "\<forall>c\<in>set (s ! i # w). \<not> is_line_terminator c" by simp
  ultimately show ?case by blast
qed

lemma dot_star_match_star:
  "dot_star_match (CHR ''*'' # p) w \<longleftrightarrow>
   (\<exists>w1 w2. w = w1 @ w2 \<and> (\<forall>c\<in>set w1. \<not> is_line_terminator c) \<and> dot_star_match p w2)"
proof (induction w)
  case Nil
  then show ?case by simp
next
  case (Cons d w)
  show ?case
  proof
    assume "dot_star_match (CHR ''*'' # p) (d # w)"
    then have "dot_star_match p (d # w) \<or>
       (\<not> is_line_terminator d \<and> dot_star_match (CHR ''*'' # p) w)" by simp
    then show "\<exists>w1 w2. d # w = w1 @ w2 \<and> (\<forall>c\<in>set w1. \<not> is_line_terminator c) \<and>
       dot_star_match p w2"
    proof
      assume "dot_star_match p (d # w)"
      then have "d # w = [] @ (d # w) \<and> (\<forall>c\<in>set ([] :: string). \<not> is_line_terminator c) \<and>
         dot_star_match p (d # w)" by simp
      then show ?thesis by blast
    next
      assume a: "\<not> is_line_terminator d \<and> dot_star_match (CHR ''*'' # p) w"
      with Cons.IH obtain w1 w2 where
        "w = w1 @ w2" "\<forall>c\<in>set w1. \<not> is_line_terminator c" "dot_star_match p w2" by blast
      with a have "d # w = (d # w1) @ w2 \<and> (\<forall>c\<in>set (d # w1). \<not> is_line_terminator c) \<and>
         dot_star_match p w2" by simp
      then show ?thesis by blast
    qed
  next
    assume "\<exists>w1 w2. d # w = w1 @ w2 \<and> (\<forall>c\<in>set w1. \<not> is_line_terminator c) \<and>
       dot_star_match p w2"
    then obtain w1 w2 where
      s: "d # w = w1 @ w2" "\<forall>c\<in>set w1. \<not> is_line_terminator c" "dot_star_match p w2" by blast
    show "dot_star_match (CHR ''*'' # p) (d # w)"
    proof (cases w1)
      case Nil
      with s have "dot_star_match p (d # w)" by simp
      then show ?thesis by simp
    next
      case (Cons d' w1')
      with s have "d' = d" "w = w1' @ w2" "\<not> is_line_terminator d"
        "\<forall>c\<in>set w1'. \<not> is_line_terminator c" by simp_all
      with s(3) Cons.IH show ?thesis by auto
    qed
  qed
qed

lemma glob_item_star: "glob_item (CHR ''*'') = Star AnyChar"
  by (simp add: glob_item_def)

lemma ends_glob_items:
  "j \<in> set (foldl (\<lambda>Q r. ends r s Q) P (map glob_item p)) \<longleftrightarrow>
   (\<exists>i\<in>set P. \<exists>w. drop i s = w @ drop j s \<and> j = i + length w \<and> dot_star_match p w)"
proof (induction p arbitrary: P)
  case Nil
  show ?case
  proof
    assume "j \<in> set (foldl (\<lambda>Q r. ends r s Q) P (map glob_item []))"
    then have "j \<in> set P \<and> drop j s = [] @ drop j s \<and> j = j + length ([] :: string) \<and>
      dot_star_match [] []" by simp
    then show "\<exists>i\<in>set P. \<exists>w. drop i s = w @ drop j s \<and> j = i + length w \<and>
      dot_star_match [] w" by blast
  next
    assume "\<exists>i\<in>set P. \<exists>w. drop i s = w @ drop j s \<and> j = i + length w \<and> dot_star_match [] w"
    then show "j \<in> set (foldl (\<lambda>Q r. ends r s Q) P (map glob_item []))" by auto
  qed
next
  case (Cons c p)
  let ?P = "ends (glob_item c) s P"
  have unfold: "j \<in> set (foldl (\<lambda>Q r. ends r s Q) P (map glob_item (c # p))) \<longleftrightarrow>
     (\<exists>i'\<in>set ?P. \<exists>w'. drop i' s = w' @ drop j s \<and> j = i' + length w' \<and> dot_star_match p w')"
    using Cons.IH [of ?P] by simp
  show ?case
  proof (cases "c = CHR ''*''")
    case star: True
    have "?P = ends (Star AnyChar) s P" using star by (simp only: glob_item_star)
    then have Pset: "set ?P = {j. \<exists>i\<in>set P. i \<le> j \<and>
        (\<forall>m. i \<le> m \<and> m < j \<longrightarrow> m < length s \<and> \<not> is_line_terminator (s ! m))}"
      by (simp only: set_ends_star_any)
    have P: "i' \<in> set ?P \<longleftrightarrow> (\<exists>i\<in>set P. \<exists>w1. drop i s = w1 @ drop i' s \<and> i' = i + length w1 \<and>
        (\<forall>c\<in>set w1. \<not> is_line_terminator c))" for i'
    proof
      assume "i' \<in> set ?P"
      then obtain i where i: "i \<in> set P" "i \<le> i'"
        "\<forall>m. i \<le> m \<and> m < i' \<longrightarrow> m < length s \<and> \<not> is_line_terminator (s ! m)"
        unfolding Pset by blast
      from word_of_run [OF i(2,3)] i(1)
      show "\<exists>i\<in>set P. \<exists>w1. drop i s = w1 @ drop i' s \<and> i' = i + length w1 \<and>
        (\<forall>c\<in>set w1. \<not> is_line_terminator c)" by blast
    next
      assume "\<exists>i\<in>set P. \<exists>w1. drop i s = w1 @ drop i' s \<and> i' = i + length w1 \<and>
        (\<forall>c\<in>set w1. \<not> is_line_terminator c)"
      then obtain i w1 where i: "i \<in> set P" "drop i s = w1 @ drop i' s" "i' = i + length w1"
        "\<forall>c\<in>set w1. \<not> is_line_terminator c" by blast
      from run_of_word [OF i(2,3,4)] i(1) show "i' \<in> set ?P"
        unfolding Pset by blast
    qed
    show ?thesis
    proof
      assume "j \<in> set (foldl (\<lambda>Q r. ends r s Q) P (map glob_item (c # p)))"
      with unfold obtain i' w' where i': "i' \<in> set ?P" "drop i' s = w' @ drop j s"
        "j = i' + length w'" "dot_star_match p w'" by blast
      from i'(1) P obtain i w1 where i: "i \<in> set P" "drop i s = w1 @ drop i' s"
        "i' = i + length w1" "\<forall>c\<in>set w1. \<not> is_line_terminator c" by blast
      from i(4) i'(4) have "dot_star_match (c # p) (w1 @ w')"
        unfolding star dot_star_match_star by blast
      moreover from i(2) i'(2) have "drop i s = (w1 @ w') @ drop j s" by simp
      moreover from i(3) i'(3) have "j = i + length (w1 @ w')" by simp
      ultimately show "\<exists>i\<in>set P. \<exists>w. drop i s = w @ drop j s \<and> j = i + length w \<and>
        dot_star_match (c # p) w" using i(1) by blast
    next
      assume "\<exists>i\<in>set P. \<exists>w. drop i s = w @ drop j s \<and> j = i + length w \<and>
        dot_star_match (c # p) w"
      then obtain i w where i: "i \<in> set P" "drop i s = w @ drop j s" "j = i + length w"
        "dot_star_match (c # p) w" by blast
      from i(4) obtain w1 w2 where w: "w = w1 @ w2" "\<forall>c\<in>set w1. \<not> is_line_terminator c"
        "dot_star_match p w2" unfolding star dot_star_match_star by blast
      let ?i = "i + length w1"
      have "drop ?i s = drop (length w1) (drop i s)" by (simp add: add.commute)
      also have "\<dots> = w2 @ drop j s" using i(2) w(1) by simp
      finally have d: "drop ?i s = w2 @ drop j s" .
      with i(2) w(1) have "drop i s = w1 @ drop ?i s" by simp
      with i(1) w(2) have "?i \<in> set ?P" using P [of ?i] by blast
      moreover from i(3) w(1) have "j = ?i + length w2" by simp
      ultimately show "j \<in> set (foldl (\<lambda>Q r. ends r s Q) P (map glob_item (c # p)))"
        using unfold d w(3) by blast
    qed
  next
    case nostar: False
    let ?C = "\<lambda>d. if c = CHR ''.'' then \<not> is_line_terminator d else d = c"
    have P: "set ?P = Suc ` {i \<in> set P. i < length s \<and> ?C (s ! i)}"
      using nostar by (auto simp: glob_item_def)
    have M: "dot_star_match (c # p) w \<longleftrightarrow> (\<exists>d w'. w = d # w' \<and> ?C d \<and> dot_star_match p w')" for w
      using nostar by (cases w) auto
    show ?thesis
    proof
      assume "j \<in> set (foldl (\<lambda>Q r. ends r s Q) P (map glob_item (c # p)))"
      with unfold obtain i' w' where i': "i' \<in> set ?P" "drop i' s = w' @ drop j s"
        "j = i' + length w'" "dot_star_match p w'" by blast
      from i'(1) P obtain i where i: "i' = Suc i" "i \<in> set P" "i < length s" "?C (s ! i)"
        by auto
      from i(1,3) i'(2) have "drop i s = (s ! i # w') @ drop j s" by (simp add: drop_eq_Cons)
      moreover from i(1) i'(3) have "j = i + length (s ! i # w')" by simp
      moreover from i(4) i'(4) have "dot_star_match (c # p) (s ! i # w')"
        unfolding M by blast
      ultimately show "\<exists>i\<in>set P. \<exists>w. drop i s = w @ drop j s \<and> j = i + length w \<and>
        dot_star_match (c # p) w" using i(2) by blast
    next
      assume "\<exists>i\<in>set P. \<exists>w. drop i s = w @ drop j s \<and> j = i + length w \<and>
        dot_star_match (c # p) w"
      then obtain i w where i: "i \<in> set P" "drop i s = w @ drop j s" "j = i + length w"
        "dot_star_match (c # p) w" by blast
      from i(4) obtain d w' where w: "w = d # w'" "?C d" "dot_star_match p w'"
        unfolding M by blast
      from i(2) w(1) have "drop i s = d # (w' @ drop j s)" by simp
      then have d: "i < length s" "s ! i = d" "drop (Suc i) s = w' @ drop j s"
        by (simp_all add: drop_eq_Cons)
      with i(1) w(2) have "Suc i \<in> set ?P" unfolding P by blast
      moreover from i(3) w(1) have "j = Suc i + length w'" by simp
      ultimately show "j \<in> set (foldl (\<lambda>Q r. ends r s Q) P (map glob_item (c # p)))"
        using unfold d(3) w(3) by blast
    qed
  qed
qed

lemma regex_search_pattern_regex:
  "regex_search k (Compiled (pattern_regex p)) \<longleftrightarrow>
   (\<exists>u w v. k = u @ w @ v \<and> at_word_boundary k (length u) \<and>
      at_word_boundary k (length u + length w) \<and> dot_star_match p w)"
proof -
  let ?all = "[0 ..< Suc (length k)]"
  let ?P = "filter (at_word_boundary k) ?all"
  have e: "ends (pattern_regex p) k ?all =
    filter (at_word_boundary k) (foldl (\<lambda>Q r. ends r k Q) ?P (map glob_item p))"
    unfolding pattern_regex_def by (simp del: upt_Suc add: ends_seq_of)
  have "regex_search k (Compiled (pattern_regex p)) \<longleftrightarrow>
     (\<exists>j. j \<in> set (ends (pattern_regex p) k ?all))"
    by (simp only: regex_search.simps) (metis empty_iff empty_set ex_in_conv set_empty)
  also have "\<dots> \<longleftrightarrow> (\<exists>j. at_word_boundary k j \<and>
     (\<exists>i\<in>set ?P. \<exists>w. drop i k = w @ drop j k \<and> j = i + length w \<and> dot_star_match p w))"
    unfolding e by (simp only: set_filter mem_Collect_eq ends_glob_items conj_commute)
  also have "\<dots> \<longleftrightarrow> (\<exists>u w v. k = u @ w @ v \<and> at_word_boundary k (length u) \<and>
      at_word_boundary k (length u + length w) \<and> dot_star_match p w)"
  proof
    assume "\<exists>j. at_word_boundary k j \<and>
     (\<exists>i\<in>set ?P. \<exists>w. drop i k = w @ drop j k \<and> j = i + length w \<and> dot_star_match p w)"
    then obtain j i w where a: "at_word_boundary k j" "i \<in> set ?P"
      "drop i k = w @ drop j k" "j = i + length w" "dot_star_match p w" by blast
    from a(2) have i: "i \<le> length k" "at_word_boundary k i" by (simp_all del: upt_Suc)
    have "k = take i k @ drop i k" by simp
    with a(3) have "k = take i k @ w @ drop j k" by simp
    moreover from i(1) have "length (take i k) = i" by simp
    ultimately have "k = take i k @ w @ drop j k \<and> at_word_boundary k (length (take i k)) \<and>
      at_word_boundary k (length (take i k) + length w) \<and> dot_star_match p w"
      using a(1,4,5) i(2) by simp
    then show "\<exists>u w v. k = u @ w @ v \<and> at_word_boundary k (length u) \<and>
      at_word_boundary k (length u + length w) \<and> dot_star_match p w" by blast
  next
    assume "\<exists>u w v. k = u @ w @ v \<and> at_word_boundary k (length u) \<and>
      at_word_boundary k (length u + length w) \<and> dot_star_match p w"
    then obtain u w v where a: "k = u @ w @ v" "at_word_boundary k (length u)"
      "at_word_boundary k (length u + length w)" "dot_star_match p w" by blast
    let ?i = "length u" and ?j = "length u + length w"
    from a(1) have "?i \<in> set ?all" by (simp del: upt_Suc)
    with a(2) have "?i \<in> set ?P" by (simp del: upt_Suc)
    moreover from a(1) have "drop ?i k = w @ drop ?j k" by (simp add: drop_append)
    ultimately have "at_word_boundary k ?j \<and>
     (\<exists>i\<in>set ?P. \<exists>w. drop i k = w @ drop ?j k \<and> ?j = i + length w \<and> dot_star_match p w)"
      using a(3,4) by blast
    then show "\<exists>j. at_word_boundary k j \<and>
     (\<exists>i\<in>set ?P. \<exists>w. drop i k = w @ drop j k \<and> j = i + length w \<and> dot_star_match p w)" ..
  qed
  finally show ?thesis .
qed

lemma set_ends_alt_of:
  "rs \<noteq> [] \<Longrightarrow> set (ends (alt_of rs) s P) = (\<Union>r\<in>set rs. set (ends r s P))"
  by (induction rs rule: alt_of.induct) auto

lemma regex_search_alt_of:
  "rs \<noteq> [] \<Longrightarrow>
   regex_search k (Compiled (alt_of rs)) \<longleftrightarrow> (\<exists>r\<in>set rs. regex_search k (Compiled r))"
proof -
  assume rs: "rs \<noteq> []"
  let ?all = "[0 ..< Suc (length k)]"
  have "regex_search k (Compiled (alt_of rs)) \<longleftrightarrow> set (ends (alt_of rs) k ?all) \<noteq> {}"
    by (simp only: regex_search.simps set_empty)
  also have "\<dots> \<longleftrightarrow> (\<exists>r\<in>set rs. set (ends r k ?all) \<noteq> {})"
    unfolding set_ends_alt_of [OF rs] by auto
  also have "\<dots> \<longleftrightarrow> (\<exists>r\<in>set rs. regex_search k (Compiled r))"
    by (simp only: regex_search.simps set_empty)
  finally show ?thesis .
qed

lemma FindAndReplace_absent:
  "find_chr \<notin> set candidate_str \<Longrightarrow> FindAndReplace candidate_str find_chr replace_str = candidate_str"
  unfolding FindAndReplace_def by (induction candidate_str) auto

lemma FindAndReplace_Cons:
  "FindAndReplace (c # p) find_chr replace_str =
     (if c = find_chr then replace_str else [c]) @ FindAndReplace p find_chr replace_str"
  by (simp add: FindAndReplace_def)

lemma step_plain:
  "c \<notin> set syntax_characters \<Longrightarrow>
   step c ((capturing, alts, ts) # st, Normal) =
     Some ((capturing, alts, (Chr c, Atom) # ts) # st, Normal)"
  by (simp add: parse_char_def syntax_characters_def)

lemma step_dot:
  "step (CHR ''.'') ((capturing, alts, ts) # st, Normal) =
     Some ((capturing, alts, (AnyChar, Atom) # ts) # st, Normal)"
  by (simp add: parse_char_def backslash_def)

lemma step_star:
  "step (CHR ''*'') ((capturing, alts, (r, Atom) # ts) # st, Normal) =
     Some ((capturing, alts, (Star r, Quantified) # ts) # st, Normal)"
  by (simp add: parse_char_def backslash_def)

lemma step_word_boundary:
  "parse_from ((capturing, alts, ts) # st, Normal) (backslash # CHR ''b'' # rest) =
   parse_from ((capturing, alts, (WordBoundary, Final) # ts) # st, Normal) rest"
  by (simp add: parse_char_def escape_def)

lemma parse_from_glob:
  "\<forall>c\<in>set p. c = CHR ''*'' \<or> c = CHR ''.'' \<or> c \<notin> set syntax_characters \<Longrightarrow>
   parse_from ((capturing, alts, ts) # st, Normal) (FindAndReplace p (CHR ''*'') ''.*'' @ rest) =
   parse_from
     ((capturing, alts, rev (map (\<lambda>c. (glob_item c, glob_kind c)) p) @ ts) # st, Normal) rest"
proof (induction p arbitrary: ts)
  case Nil
  then show ?case by (simp add: FindAndReplace_def)
next
  case (Cons c p)
  then have p: "\<forall>c\<in>set p. c = CHR ''*'' \<or> c = CHR ''.'' \<or> c \<notin> set syntax_characters"
    and c: "c = CHR ''*'' \<or> c = CHR ''.'' \<or> c \<notin> set syntax_characters" by simp_all
  let ?rest = "FindAndReplace p (CHR ''*'') ''.*'' @ rest"
  have "parse_from ((capturing, alts, ts) # st, Normal)
          (FindAndReplace (c # p) (CHR ''*'') ''.*'' @ rest) =
        parse_from ((capturing, alts, (glob_item c, glob_kind c) # ts) # st, Normal) ?rest"
  proof (cases "c = CHR ''*''")
    case True
    then show ?thesis
      by (simp add: FindAndReplace_Cons step_dot step_star glob_item_star glob_kind_def
          del: step.simps)
  next
    case star: False
    show ?thesis
    proof (cases "c = CHR ''.''")
      case True
      then show ?thesis
        by (simp add: FindAndReplace_Cons parse_char_def backslash_def glob_item_def
            glob_kind_def)
    next
      case False
      with star c have plain: "c \<notin> set syntax_characters" by simp
      from star False show ?thesis
        by (simp add: FindAndReplace_Cons step_plain [OF plain] glob_item_def glob_kind_def
            del: step.simps)
    qed
  qed
  also have "\<dots> = parse_from ((capturing, alts,
      rev (map (\<lambda>c. (glob_item c, glob_kind c)) p) @ (glob_item c, glob_kind c) # ts) # st,
      Normal) rest"
    by (rule Cons.IH [OF p])
  finally show ?case by simp
qed

lemma parse_from_pattern:
  assumes "\<forall>c\<in>set p. c = CHR ''*'' \<or> c = CHR ''.'' \<or> c \<notin> set syntax_characters"
  shows "parse_from ((capturing, alts, []) # st, Normal)
      (''('' @ [backslash] @ ''b'' @ FindAndReplace p (CHR ''*'') ''.*'' @ [backslash] @ ''b)''
        @ rest) =
     parse_from ((capturing, alts, [(pattern_regex p, Atom)]) # st, Normal) rest"
proof -
  let ?st = "(capturing, alts, []) # st"
  let ?ts = "rev (map (\<lambda>c. (glob_item c, glob_kind c)) p) @ [(WordBoundary, Final)]"
  have "parse_from (?st, Normal)
      (''('' @ [backslash] @ ''b'' @ FindAndReplace p (CHR ''*'') ''.*'' @ [backslash] @ ''b)''
        @ rest) =
    parse_from ((True, [], [(WordBoundary, Final)]) # ?st, Normal)
      (FindAndReplace p (CHR ''*'') ''.*'' @ (backslash # CHR ''b'' # CHR '')'' # rest))"
    by (simp add: parse_char_def escape_def backslash_def)
  also have "\<dots> = parse_from ((True, [], ?ts) # ?st, Normal)
      (backslash # CHR ''b'' # CHR '')'' # rest)"
    by (rule parse_from_glob [OF assms])
  also have "\<dots> = parse_from ((True, [], (WordBoundary, Final) # ?ts) # ?st, Normal)
      (CHR '')'' # rest)"
    by (rule step_word_boundary)
  also have "\<dots> = parse_from ((capturing, alts, [(pattern_regex p, Atom)]) # st, Normal) rest"
    by (simp add: parse_char_def backslash_def pattern_regex_def rev_map comp_def)
  finally show ?thesis .
qed

lemma parse_from_patterns:
  "\<forall>p\<in>set ps. \<forall>c\<in>set p. c = CHR ''*'' \<or> c = CHR ''.'' \<or> c \<notin> set syntax_characters \<Longrightarrow>
   ps \<noteq> [] \<Longrightarrow>
   parse_from ([(capturing, alts, [])], Normal) (all_regex_match_str ps) =
     Some (alt_of (alts @ map pattern_regex ps))"
proof (induction ps arbitrary: alts)
  case Nil
  then show ?case by simp
next
  case (Cons p ps)
  then have p: "\<forall>c\<in>set p. c = CHR ''*'' \<or> c = CHR ''.'' \<or> c \<notin> set syntax_characters"
    and ps: "\<forall>p\<in>set ps. \<forall>c\<in>set p. c = CHR ''*'' \<or> c = CHR ''.'' \<or> c \<notin> set syntax_characters"
    by simp_all
  let ?rest = "(if ps \<noteq> [] then ''|'' else []) @ all_regex_match_str ps"
  have "all_regex_match_str (p # ps) =
     ''('' @ [backslash] @ ''b'' @ FindAndReplace p (CHR ''*'') ''.*'' @ [backslash] @ ''b)''
       @ ?rest" by simp
  then have "parse_from ([(capturing, alts, [])], Normal) (all_regex_match_str (p # ps)) =
     parse_from ([(capturing, alts, [(pattern_regex p, Atom)])], Normal) ?rest"
    by (simp only: parse_from_pattern [OF p])
  also have "\<dots> = Some (alt_of (alts @ map pattern_regex (p # ps)))"
  proof (cases "ps = []")
    case True
    then show ?thesis by simp
  next
    case False
    then have "parse_from ([(capturing, alts, [(pattern_regex p, Atom)])], Normal) ?rest =
       parse_from ([(capturing, alts @ [pattern_regex p], [])], Normal) (all_regex_match_str ps)"
      by (simp add: parse_char_def backslash_def)
    also have "\<dots> = Some (alt_of ((alts @ [pattern_regex p]) @ map pattern_regex ps))"
      by (rule Cons.IH [OF ps False])
    finally show ?thesis by simp
  qed
  finally show ?case .
qed

lemma all_regex_match_str_empty: "all_regex_match_str ps = [] \<longleftrightarrow> ps = []"
  by (cases ps) simp_all

lemma CreateRegexMatchExprFromSet_patterns:
  assumes "\<forall>p\<in>set ps. \<forall>c\<in>set p. c = CHR ''*'' \<or> c = CHR ''.'' \<or> c \<notin> set syntax_characters"
    and "ps \<noteq> []"
  shows "CreateRegexMatchExprFromSet library ps = Some (Compiled (alt_of (map pattern_regex ps)))"
  using parse_from_patterns [OF assms, of False "[]"] assms(2)
  by (simp add: CreateRegexMatchExprFromSet_def std_regex_of_def parse_regex_def
      all_regex_match_str_empty)

lemma regex_search_patterns:
  assumes "ps \<noteq> []"
  shows "regex_search k (Compiled (alt_of (map pattern_regex ps))) \<longleftrightarrow>
     (\<exists>p\<in>set ps. \<exists>u w v. k = u @ w @ v \<and> at_word_boundary k (length u) \<and>
        at_word_boundary k (length u + length w) \<and> dot_star_match p w)"
proof -
  from assms have "map pattern_regex ps \<noteq> []" by simp
  from regex_search_alt_of [OF this]
  have "regex_search k (Compiled (alt_of (map pattern_regex ps))) \<longleftrightarrow>
     (\<exists>p\<in>set ps. regex_search k (Compiled (pattern_regex p)))" by simp
  then show ?thesis by (simp only: regex_search_pattern_regex)
qed


subsection \<open>An expression between word boundaries\<close>

lemma push_term_inside:
  "push_term t (inside below st) =
     map_option (\<lambda>p. (inside below (fst p), snd p)) (push_term t st)"
proof (cases st)
  case Nil
  then show ?thesis by simp
next
  case (Cons fr st')
  obtain capturing alts ts where fr: "fr = (capturing, alts, ts)" by (cases fr)
  show ?thesis
  proof (cases st')
    case Nil
    with Cons fr show ?thesis by simp
  next
    case (Cons fr' st'')
    with \<open>st = fr # st'\<close> fr show ?thesis by simp
  qed
qed

lemma push_term_inside_Some:
  "push_term t st = Some p \<Longrightarrow> push_term t (inside below st) = Some (inside below (fst p), snd p)"
  by (simp add: push_term_inside)

lemma inside_Cons: "st \<noteq> [] \<Longrightarrow> inside below (fr # st) = fr # inside below st"
  by (cases st) simp_all

lemma quantify_inside:
  "quantify q st = Some p \<Longrightarrow> quantify q (inside below st) = Some (inside below (fst p), snd p)"
proof (induction q st rule: quantify.induct)
  case (1 q capturing alts r ts st)
  then show ?case by (cases st) auto
qed simp_all

lemma question_mark_inside:
  "question_mark st = Some p \<Longrightarrow>
   question_mark (inside below st) = Some (inside below (fst p), snd p)"
proof (induction st rule: question_mark.induct)
  case (1 capturing alts r ts st)
  then show ?case by (cases st) auto
next
  case (2 capturing alts r ts st)
  then show ?case by (cases st) auto
qed simp_all

lemma parse_char_inside:
  assumes "parse_char c st = Some p" and "c \<noteq> CHR ''|''"
  shows "parse_char c (inside below st) = Some (inside below (fst p), snd p)"
proof (cases "c = CHR '')''")
  case True
  with assms(1) obtain fr fr' rest where st: "st = fr # fr' # rest"
    and p: "push_term (disjunction fr, Atom) (fr' # rest) = Some p"
    by (auto simp: parse_char_def backslash_def split: list.splits)
  have "inside below st = fr # inside below (fr' # rest)" using st by simp
  moreover obtain g rest' where "inside below (fr' # rest) = g # rest'"
    by (cases rest; cases fr') auto
  ultimately have "parse_char c (inside below st) =
      push_term (disjunction fr, Atom) (inside below (fr' # rest))"
    using True by (simp add: parse_char_def backslash_def)
  also have "\<dots> = Some (inside below (fst p), snd p)"
    using p by (rule push_term_inside_Some)
  finally show ?thesis .
next
  case False
  with assms show ?thesis
    by (auto simp: parse_char_def backslash_def push_term_inside_Some quantify_inside
        question_mark_inside split: if_splits)
qed

lemma class_char_inside:
  assumes "class_char c st negated items cs = Some p"
  shows "class_char c (inside below st) negated items cs = Some (inside below (fst p), snd p)"
  using assms
  by (auto simp: class_char_def backslash_def push_term_inside_Some
      split: if_splits class_state.splits)

lemma push_term_nonempty: "push_term t st = Some p \<Longrightarrow> fst p \<noteq> []"
  by (cases st) auto

lemma quantify_nonempty: "quantify q st = Some p \<Longrightarrow> fst p \<noteq> []"
  by (induction q st rule: quantify.induct) auto

lemma question_mark_nonempty: "question_mark st = Some p \<Longrightarrow> fst p \<noteq> []"
  by (induction st rule: question_mark.induct) auto

lemma parse_char_nonempty: "parse_char c st = Some p \<Longrightarrow> st \<noteq> [] \<Longrightarrow> fst p \<noteq> []"
  by (auto simp: parse_char_def split: if_splits list.splits
      dest: push_term_nonempty quantify_nonempty question_mark_nonempty)

lemma class_char_nonempty:
  "class_char c st negated items cs = Some p \<Longrightarrow> st \<noteq> [] \<Longrightarrow> fst p \<noteq> []"
  by (auto simp: class_char_def split: if_splits class_state.splits dest: push_term_nonempty)

lemma step_nonempty: "step c (st, m) = Some p \<Longrightarrow> st \<noteq> [] \<Longrightarrow> fst p \<noteq> []"
  by (cases m)
    (auto simp: Let_def split: if_splits option.splits
      dest: push_term_nonempty quantify_nonempty parse_char_nonempty class_char_nonempty)

lemma step_inside:
  assumes "step c (st, m) = Some p" and "st \<noteq> []" and "c \<noteq> CHR ''|''"
  shows "step c (inside below st, m) = Some (inside below (fst p), snd p)"
proof (cases m)
  case Normal
  with assms show ?thesis by (simp add: parse_char_inside)
next
  case Escape
  with assms show ?thesis by (auto simp: push_term_inside_Some split: option.splits)
next
  case Opened
  show ?thesis
  proof (cases "c = CHR ''?''")
    case True
    with Opened assms show ?thesis by auto
  next
    case False
    with Opened assms have "parse_char c ((True, [], []) # st) = Some p" by simp
    from parse_char_inside [OF this assms(3), of below] assms(2) False Opened
    show ?thesis by (simp add: inside_Cons)
  qed
next
  case OpenedQuestion
  with assms show ?thesis by (auto simp: inside_Cons split: if_splits)
next
  case ClassStart
  with assms show ?thesis by (auto simp: class_char_inside split: if_splits)
next
  case (InClass negated items cs)
  with assms show ?thesis by (simp add: class_char_inside)
next
  case (ClassEscaped negated items)
  with assms show ?thesis by (auto split: option.splits)
next
  case (BraceMin n)
  with assms show ?thesis
    by (auto simp: Let_def quantify_inside split: if_splits option.splits)
next
  case (BraceMax k n)
  with assms show ?thesis
    by (auto simp: Let_def quantify_inside split: if_splits option.splits)
qed

lemma run_inside:
  "run (st, m) t = Some p \<Longrightarrow> st \<noteq> [] \<Longrightarrow> CHR ''|'' \<notin> set t \<Longrightarrow>
   run (inside below st, m) t = Some (inside below (fst p), snd p)"
proof (induction t arbitrary: st m)
  case Nil
  then show ?case by auto
next
  case (Cons c t)
  from Cons.prems(1) obtain st' m' where s: "step c (st, m) = Some (st', m')"
    and r: "run (st', m') t = Some p"
    by (auto split: option.splits)
  from Cons.prems(3) have c: "c \<noteq> CHR ''|''" and t: "CHR ''|'' \<notin> set t" by auto
  from step_nonempty [OF s Cons.prems(2)] have ne: "st' \<noteq> []" by simp
  from step_inside [OF s Cons.prems(2) c, of below]
  have "step c (inside below st, m) = Some (inside below st', m')" by simp
  with Cons.IH [OF r ne t] show ?case by simp
qed

lemma push_term_alternatives:
  "push_term t st = Some p \<Longrightarrow> \<forall>fr\<in>set st. fst (snd fr) = [] \<Longrightarrow>
   \<forall>fr\<in>set (fst p). fst (snd fr) = []"
  by (cases st) fastforce+

lemma quantify_alternatives:
  "quantify q st = Some p \<Longrightarrow> \<forall>fr\<in>set st. fst (snd fr) = [] \<Longrightarrow>
   \<forall>fr\<in>set (fst p). fst (snd fr) = []"
  by (induction q st rule: quantify.induct) auto

lemma question_mark_alternatives:
  "question_mark st = Some p \<Longrightarrow> \<forall>fr\<in>set st. fst (snd fr) = [] \<Longrightarrow>
   \<forall>fr\<in>set (fst p). fst (snd fr) = []"
  by (induction st rule: question_mark.induct) auto

lemma parse_char_alternatives:
  "parse_char c st = Some p \<Longrightarrow> c \<noteq> CHR ''|'' \<Longrightarrow> \<forall>fr\<in>set st. fst (snd fr) = [] \<Longrightarrow>
   \<forall>fr\<in>set (fst p). fst (snd fr) = []"
  by (auto simp: parse_char_def split: if_splits list.splits
      dest!: push_term_alternatives quantify_alternatives question_mark_alternatives)

lemma class_char_alternatives:
  "class_char c st negated items cs = Some p \<Longrightarrow> \<forall>fr\<in>set st. fst (snd fr) = [] \<Longrightarrow>
   \<forall>fr\<in>set (fst p). fst (snd fr) = []"
  by (auto simp: class_char_def split: if_splits class_state.splits
      dest!: push_term_alternatives)

lemma step_alternatives:
  "step c (st, m) = Some p \<Longrightarrow> c \<noteq> CHR ''|'' \<Longrightarrow> \<forall>fr\<in>set st. fst (snd fr) = [] \<Longrightarrow>
   \<forall>fr\<in>set (fst p). fst (snd fr) = []"
proof (cases m)
  case Normal
  then show "step c (st, m) = Some p \<Longrightarrow> c \<noteq> CHR ''|'' \<Longrightarrow>
    \<forall>fr\<in>set st. fst (snd fr) = [] \<Longrightarrow> ?thesis"
    using parse_char_alternatives [of c st p] by simp
next
  case Escape
  then show "step c (st, m) = Some p \<Longrightarrow> c \<noteq> CHR ''|'' \<Longrightarrow>
    \<forall>fr\<in>set st. fst (snd fr) = [] \<Longrightarrow> ?thesis"
    by (auto split: option.splits dest!: push_term_alternatives)
next
  case Opened
  then show "step c (st, m) = Some p \<Longrightarrow> c \<noteq> CHR ''|'' \<Longrightarrow>
    \<forall>fr\<in>set st. fst (snd fr) = [] \<Longrightarrow> ?thesis"
    using parse_char_alternatives [of c "(True, [], []) # st" p]
    by (auto split: if_splits)
next
  case OpenedQuestion
  then show "step c (st, m) = Some p \<Longrightarrow> c \<noteq> CHR ''|'' \<Longrightarrow>
    \<forall>fr\<in>set st. fst (snd fr) = [] \<Longrightarrow> ?thesis"
    by (auto split: if_splits)
next
  case ClassStart
  then show "step c (st, m) = Some p \<Longrightarrow> c \<noteq> CHR ''|'' \<Longrightarrow>
    \<forall>fr\<in>set st. fst (snd fr) = [] \<Longrightarrow> ?thesis"
    using class_char_alternatives [of c st False "[]" NoChar p]
    by (auto split: if_splits)
next
  case (InClass negated items cs)
  then show "step c (st, m) = Some p \<Longrightarrow> c \<noteq> CHR ''|'' \<Longrightarrow>
    \<forall>fr\<in>set st. fst (snd fr) = [] \<Longrightarrow> ?thesis"
    using class_char_alternatives [of c st negated items cs p] by simp
next
  case (ClassEscaped negated items)
  then show "step c (st, m) = Some p \<Longrightarrow> c \<noteq> CHR ''|'' \<Longrightarrow>
    \<forall>fr\<in>set st. fst (snd fr) = [] \<Longrightarrow> ?thesis"
    by (auto split: option.splits)
next
  case (BraceMin n)
  then show "step c (st, m) = Some p \<Longrightarrow> c \<noteq> CHR ''|'' \<Longrightarrow>
    \<forall>fr\<in>set st. fst (snd fr) = [] \<Longrightarrow> ?thesis"
    by (auto simp: Let_def split: if_splits option.splits dest!: quantify_alternatives)
next
  case (BraceMax k n)
  then show "step c (st, m) = Some p \<Longrightarrow> c \<noteq> CHR ''|'' \<Longrightarrow>
    \<forall>fr\<in>set st. fst (snd fr) = [] \<Longrightarrow> ?thesis"
    by (auto simp: Let_def split: if_splits option.splits dest!: quantify_alternatives)
qed

lemma run_alternatives:
  "run (st, m) t = Some p \<Longrightarrow> CHR ''|'' \<notin> set t \<Longrightarrow> \<forall>fr\<in>set st. fst (snd fr) = [] \<Longrightarrow>
   \<forall>fr\<in>set (fst p). fst (snd fr) = []"
proof (induction t arbitrary: st m)
  case Nil
  then show ?case by auto
next
  case (Cons c t)
  from Cons.prems(1) obtain st' m' where s: "step c (st, m) = Some (st', m')"
    and r: "run (st', m') t = Some p"
    by (auto split: option.splits)
  from Cons.prems(2) have c: "c \<noteq> CHR ''|''" and t: "CHR ''|'' \<notin> set t" by auto
  from step_alternatives [OF s c Cons.prems(3)]
  have "\<forall>fr\<in>set st'. fst (snd fr) = []" by simp
  from Cons.IH [OF r t this] show ?case .
qed

lemma parse_from_append:
  "parse_from p (t @ rest) =
     (case run p t of None \<Rightarrow> None | Some p' \<Rightarrow> parse_from p' rest)"
  by (induction t arbitrary: p) (simp_all split: option.splits)

lemma parse_regex_terms:
  assumes "parse_regex t = Some r" and "CHR ''|'' \<notin> set t"
  shows "\<exists>capturing ts. run ([(False, [], [])], Normal) t = Some ([(capturing, [], ts)], Normal) \<and>
     terms_of t = rev (map fst ts) \<and> r = seq_of (terms_of t)"
proof -
  from assms(1) parse_from_append [of "([(False, [], [])], Normal)" t "[]"]
  obtain p where p: "run ([(False, [], [])], Normal) t = Some p" and f: "parse_from p [] = Some r"
    by (auto simp: parse_regex_def split: option.splits)
  from f obtain fr where fr: "p = ([fr], Normal)" and r: "r = alt_of (close_alternative fr)"
    by (auto split: prod.splits list.splits mode.splits)
  obtain capturing alts ts where f3: "fr = (capturing, alts, ts)" by (cases fr)
  from run_alternatives [OF p assms(2)] fr f3 have alts: "alts = []" by simp
  from p fr f3 alts
  have run: "run ([(False, [], [])], Normal) t = Some ([(capturing, [], ts)], Normal)" by simp
  then have "terms_of t = rev (map fst ts)" by (simp add: terms_of_def)
  moreover from r f3 alts this have "r = seq_of (terms_of t)" by simp
  ultimately show ?thesis using run by blast
qed

lemma parse_from_between_word_boundaries:
  assumes "parse_regex t = Some r" and "CHR ''|'' \<notin> set t"
  shows "parse_from ((capturing, alts, []) # st, Normal)
      (''('' @ [backslash] @ ''b'' @ t @ [backslash] @ ''b)'' @ rest) =
     parse_from ((capturing, alts,
        [(Group (seq_of (WordBoundary # terms_of t @ [WordBoundary])), Atom)]) # st, Normal) rest"
proof -
  let ?below = "(capturing, alts, []) # st"
  from parse_regex_terms [OF assms] obtain c0 ts where
    run: "run ([(False, [], [])], Normal) t = Some ([(c0, [], ts)], Normal)"
    and terms: "terms_of t = rev (map fst ts)" by blast
  from run_inside [OF run _ assms(2), of ?below]
  have inside: "run ((True, [], [(WordBoundary, Final)]) # ?below, Normal) t =
     Some ((True, [], ts @ [(WordBoundary, Final)]) # ?below, Normal)" by simp
  have "parse_from (?below, Normal)
      (''('' @ [backslash] @ ''b'' @ t @ [backslash] @ ''b)'' @ rest) =
    parse_from ((True, [], [(WordBoundary, Final)]) # ?below, Normal)
      (t @ (backslash # CHR ''b'' # CHR '')'' # rest))"
    by (simp add: parse_char_def escape_def backslash_def)
  also have "\<dots> = parse_from ((True, [], ts @ [(WordBoundary, Final)]) # ?below, Normal)
      (backslash # CHR ''b'' # CHR '')'' # rest)"
    by (simp only: parse_from_append inside option.case)
  also have "\<dots> = parse_from
      ((True, [], (WordBoundary, Final) # ts @ [(WordBoundary, Final)]) # ?below, Normal)
      (CHR '')'' # rest)"
    by (rule step_word_boundary)
  also have "\<dots> = parse_from ((capturing, alts,
        [(Group (seq_of (WordBoundary # terms_of t @ [WordBoundary])), Atom)]) # st, Normal) rest"
    by (simp add: parse_char_def backslash_def terms)
  finally show ?thesis .
qed

lemma FindAndReplace_no_bar:
  "CHR ''|'' \<notin> set p \<Longrightarrow> CHR ''|'' \<notin> set (FindAndReplace p (CHR ''*'') ''.*'')"
  by (induction p) (auto simp: FindAndReplace_def)

lemma parse_from_expressions:
  "\<forall>p\<in>set ps. CHR ''|'' \<notin> set p \<and> parse_regex (FindAndReplace p (CHR ''*'') ''.*'') \<noteq> None \<Longrightarrow>
   ps \<noteq> [] \<Longrightarrow>
   parse_from ([(capturing, alts, [])], Normal) (all_regex_match_str ps) =
     Some (alt_of (alts @
       map (\<lambda>p. Group (seq_of (WordBoundary # terms_of (FindAndReplace p (CHR ''*'') ''.*'') @
         [WordBoundary]))) ps))"
proof (induction ps arbitrary: alts)
  case Nil
  then show ?case by simp
next
  case (Cons p ps)
  let ?G = "\<lambda>p. Group (seq_of (WordBoundary # terms_of (FindAndReplace p (CHR ''*'') ''.*'') @
         [WordBoundary]))"
  from Cons.prems(1) obtain r where r: "parse_regex (FindAndReplace p (CHR ''*'') ''.*'') = Some r"
    and bar: "CHR ''|'' \<notin> set p"
    and ps: "\<forall>p\<in>set ps. CHR ''|'' \<notin> set p \<and>
       parse_regex (FindAndReplace p (CHR ''*'') ''.*'') \<noteq> None" by auto
  let ?rest = "(if ps \<noteq> [] then ''|'' else []) @ all_regex_match_str ps"
  have "all_regex_match_str (p # ps) =
     ''('' @ [backslash] @ ''b'' @ FindAndReplace p (CHR ''*'') ''.*'' @ [backslash] @ ''b)''
       @ ?rest" by simp
  then have "parse_from ([(capturing, alts, [])], Normal) (all_regex_match_str (p # ps)) =
     parse_from ([(capturing, alts, [(?G p, Atom)])], Normal) ?rest"
    by (simp only: parse_from_between_word_boundaries [OF r FindAndReplace_no_bar [OF bar]])
  also have "\<dots> = Some (alt_of (alts @ map ?G (p # ps)))"
  proof (cases "ps = []")
    case True
    then show ?thesis by simp
  next
    case False
    then have "parse_from ([(capturing, alts, [(?G p, Atom)])], Normal) ?rest =
       parse_from ([(capturing, alts @ [?G p], [])], Normal) (all_regex_match_str ps)"
      by (simp add: parse_char_def backslash_def)
    also have "\<dots> = Some (alt_of ((alts @ [?G p]) @ map ?G ps))"
      by (rule Cons.IH [OF ps False])
    finally show ?thesis by simp
  qed
  finally show ?case .
qed

lemma regex_search_between_word_boundaries:
  "regex_search k (Compiled (Group (seq_of (WordBoundary # rs @ [WordBoundary])))) \<longleftrightarrow>
   (\<exists>j\<in>set (ends (seq_of rs) k (filter (at_word_boundary k) [0 ..< Suc (length k)])).
      at_word_boundary k j)"
proof -
  let ?all = "[0 ..< Suc (length k)]"
  have "ends (Group (seq_of (WordBoundary # rs @ [WordBoundary]))) k ?all =
    filter (at_word_boundary k) (ends (seq_of rs) k (filter (at_word_boundary k) ?all))"
    by (simp del: upt_Suc add: ends_seq_of)
  then have "regex_search k (Compiled (Group (seq_of (WordBoundary # rs @ [WordBoundary])))) \<longleftrightarrow>
    filter (at_word_boundary k) (ends (seq_of rs) k (filter (at_word_boundary k) ?all)) \<noteq> []"
    by (simp only: regex_search.simps)
  also have "\<dots> \<longleftrightarrow> (\<exists>j\<in>set (ends (seq_of rs) k (filter (at_word_boundary k) ?all)).
      at_word_boundary k j)"
    by (simp only: filter_empty_conv) blast
  finally show ?thesis .
qed

lemma CreateRegexMatchExprFromSet_expressions:
  assumes "\<forall>p\<in>set ps. CHR ''|'' \<notin> set p \<and>
      parse_regex (FindAndReplace p (CHR ''*'') ''.*'') \<noteq> None"
    and "ps \<noteq> []"
  shows "\<exists>re. CreateRegexMatchExprFromSet library ps = Some re \<and>
     (\<forall>k. regex_search k re \<longleftrightarrow>
        (\<exists>p\<in>set ps. \<exists>r. parse_regex (FindAndReplace p (CHR ''*'') ''.*'') = Some r \<and>
           (\<exists>j\<in>set (ends r k (filter (at_word_boundary k) [0 ..< Suc (length k)])).
              at_word_boundary k j)))"
proof -
  let ?t = "\<lambda>p. FindAndReplace p (CHR ''*'') ''.*''"
  let ?G = "\<lambda>p. Group (seq_of (WordBoundary # terms_of (?t p) @ [WordBoundary]))"
  let ?re = "Compiled (alt_of (map ?G ps))"
  have c: "CreateRegexMatchExprFromSet library ps = Some ?re"
    using parse_from_expressions [OF assms, of False "[]"] assms(2)
    by (simp add: CreateRegexMatchExprFromSet_def std_regex_of_def parse_regex_def
        all_regex_match_str_empty)
  have r: "parse_regex (?t p) = Some (seq_of (terms_of (?t p)))" if "p \<in> set ps" for p
  proof -
    from assms(1) that obtain r where r: "parse_regex (?t p) = Some r"
      and bar: "CHR ''|'' \<notin> set p" by auto
    from parse_regex_terms [OF r FindAndReplace_no_bar [OF bar]] r show ?thesis by blast
  qed
  have "regex_search k ?re \<longleftrightarrow>
        (\<exists>p\<in>set ps. \<exists>r. parse_regex (?t p) = Some r \<and>
           (\<exists>j\<in>set (ends r k (filter (at_word_boundary k) [0 ..< Suc (length k)])).
              at_word_boundary k j))" for k
  proof -
    from assms(2) have "map ?G ps \<noteq> []" by simp
    from regex_search_alt_of [OF this]
    have "regex_search k ?re \<longleftrightarrow> (\<exists>p\<in>set ps. regex_search k (Compiled (?G p)))" by simp
    also have "\<dots> \<longleftrightarrow> (\<exists>p\<in>set ps.
       \<exists>j\<in>set (ends (seq_of (terms_of (?t p))) k
               (filter (at_word_boundary k) [0 ..< Suc (length k)])). at_word_boundary k j)"
      by (simp only: regex_search_between_word_boundaries)
    also have "\<dots> \<longleftrightarrow> (\<exists>p\<in>set ps. \<exists>r. parse_regex (?t p) = Some r \<and>
           (\<exists>j\<in>set (ends r k (filter (at_word_boundary k) [0 ..< Suc (length k)])).
              at_word_boundary k j))"
      using r by (metis option.inject)
    finally show ?thesis .
  qed
  with c show ?thesis by (intro exI [of _ ?re] conjI allI)
qed

subsection \<open>The two claims\<close>

text \<open>
  Claim C4 says that every pattern character but \<^verbatim>\<open>*\<close> is escaped. None is: the
  pattern \<open>a.c\<close> accepts the key \<open>abc\<close>.
\<close>

theorem unescaped_dot_accepts_any_character:
  "map_option (regex_search ''abc'')
     (CreateRegexMatchExprFromSet (library_regex example_env) [''a.c'']) = Some True"
  by code_simp

text \<open>
  Claim C4, as the program has it. The expression of a pattern set is its patterns
  in order, each between \<^verbatim>\<open>(\b\<close> and \<^verbatim>\<open>\b)\<close>, joined by \<^verbatim>\<open>|\<close>; in a pattern
  every \<^verbatim>\<open>*\<close> becomes \<^verbatim>\<open>.*\<close> and every other character is copied as it is. So
  a pattern is read as the regular expression that its text spells: for patterns
  without \<^verbatim>\<open>|\<close> whose text is an expression that the model reads, a key is
  accepted exactly when the expression of some pattern of the set matches a part of
  the key that starts and ends at a word boundary. For the patterns made of
  \<^verbatim>\<open>*\<close>, \<^verbatim>\<open>.\<close> and characters without a meaning in a regular expression, that
  is: some pattern of the set matches a substring of the key between two word
  boundaries, with \<^verbatim>\<open>.\<close> for any one character and \<^verbatim>\<open>*\<close> for any run of
  characters, line terminators excepted. The characters \<^verbatim>\<open>+\<close>, \<^verbatim>\<open>(\<close> and
  \<^verbatim>\<open>[\<close> are operators as well: \<open>a+\<close> accepts \<open>aa\<close>, \<open>(ab)\<close> accepts \<open>ab\<close>,
  \<open>f[ab]\<close> accepts \<open>fa\<close> and \<open>fb\<close> and not \<open>f[ab]\<close>, alone and in a set of
  several patterns.
\<close>

theorem only_star_is_translated:
  "all_regex_match_str [] = [] \<and>
   all_regex_match_str [p] =
     ''('' @ [backslash] @ ''b'' @ FindAndReplace p (CHR ''*'') ''.*'' @ [backslash] @ ''b)'' \<and>
   (ps \<noteq> [] \<longrightarrow>
      all_regex_match_str (p # ps) = all_regex_match_str [p] @ ''|'' @ all_regex_match_str ps) \<and>
   FindAndReplace [] (CHR ''*'') ''.*'' = [] \<and>
   FindAndReplace (c # p) (CHR ''*'') ''.*'' =
     (if c = CHR ''*'' then ''.*'' else [c]) @ FindAndReplace p (CHR ''*'') ''.*'' \<and>
   (CHR ''*'' \<notin> set p \<longrightarrow>
      all_regex_match_str [p] = ''('' @ [backslash] @ ''b'' @ p @ [backslash] @ ''b)'') \<and>
   (es \<noteq> [] \<and>
    (\<forall>e\<in>set es. CHR ''|'' \<notin> set e \<and>
       parse_regex (FindAndReplace e (CHR ''*'') ''.*'') \<noteq> None) \<longrightarrow>
      (\<exists>re. CreateRegexMatchExprFromSet library es = Some re \<and>
         (\<forall>k. regex_search k re \<longleftrightarrow>
            (\<exists>e\<in>set es. \<exists>r. parse_regex (FindAndReplace e (CHR ''*'') ''.*'') = Some r \<and>
               (\<exists>j\<in>set (ends r k (filter (at_word_boundary k) [0 ..< Suc (length k)])).
                  at_word_boundary k j))))) \<and>
   (qs \<noteq> [] \<and>
    (\<forall>q\<in>set qs. \<forall>c\<in>set q. c = CHR ''*'' \<or> c = CHR ''.'' \<or> c \<notin> set syntax_characters) \<longrightarrow>
      (\<exists>re. CreateRegexMatchExprFromSet library qs = Some re \<and>
         (\<forall>k. regex_search k re \<longleftrightarrow>
            (\<exists>q\<in>set qs. \<exists>u w v. k = u @ w @ v \<and> at_word_boundary k (length u) \<and>
               at_word_boundary k (length u + length w) \<and> dot_star_match q w)))) \<and>
   map_option (\<lambda>re. map (\<lambda>k. regex_search k re) [''a.c'', ''abc'', ''ac''])
       (CreateRegexMatchExprFromSet (library_regex example_env) [''a.c'']) =
     Some [True, True, False] \<and>
   map_option (\<lambda>re. map (\<lambda>k. regex_search k re) [''ac'', ''abbc'', ''ab''])
       (CreateRegexMatchExprFromSet (library_regex example_env) [''a*c'']) =
     Some [True, True, False] \<and>
   map_option (\<lambda>re. map (\<lambda>k. regex_search k re) [''a'', ''aa'', ''b''])
       (CreateRegexMatchExprFromSet (library_regex example_env) [''a+'']) =
     Some [True, True, False] \<and>
   map_option (\<lambda>re. map (\<lambda>k. regex_search k re) [''ab'', ''(ab)'', ''(a''])
       (CreateRegexMatchExprFromSet (library_regex example_env) [''(ab)'']) =
     Some [True, True, False] \<and>
   map_option (\<lambda>re. map (\<lambda>k. regex_search k re) [''fa'', ''fb'', ''f[ab]'', ''fc''])
       (CreateRegexMatchExprFromSet (library_regex example_env) [''f[ab]'']) =
     Some [True, True, False, False] \<and>
   map_option (\<lambda>re. map (\<lambda>k. regex_search k re) [''abc'', ''fb'', ''aa'', ''f[ab]'', ''xyz''])
       (CreateRegexMatchExprFromSet (library_regex example_env) [''a.c'', ''f[ab]'', ''a+'']) =
     Some [True, True, True, False, False]"
proof (intro conjI impI)
  show "all_regex_match_str [] = []" by simp
  show "all_regex_match_str [p] =
     ''('' @ [backslash] @ ''b'' @ FindAndReplace p (CHR ''*'') ''.*'' @ [backslash] @ ''b)''"
    by simp
  show "all_regex_match_str (p # ps) = all_regex_match_str [p] @ ''|'' @ all_regex_match_str ps"
    if "ps \<noteq> []" using that by simp
  show "FindAndReplace [] (CHR ''*'') ''.*'' = []" by (simp add: FindAndReplace_def)
  show "FindAndReplace (c # p) (CHR ''*'') ''.*'' =
     (if c = CHR ''*'' then ''.*'' else [c]) @ FindAndReplace p (CHR ''*'') ''.*''"
    by (rule FindAndReplace_Cons)
  show "all_regex_match_str [p] = ''('' @ [backslash] @ ''b'' @ p @ [backslash] @ ''b)''"
    if "CHR ''*'' \<notin> set p" using that by (simp add: FindAndReplace_absent)
next
  assume "es \<noteq> [] \<and>
    (\<forall>e\<in>set es. CHR ''|'' \<notin> set e \<and>
       parse_regex (FindAndReplace e (CHR ''*'') ''.*'') \<noteq> None)"
  then have ne: "es \<noteq> []"
    and read: "\<forall>e\<in>set es. CHR ''|'' \<notin> set e \<and>
       parse_regex (FindAndReplace e (CHR ''*'') ''.*'') \<noteq> None" by simp_all
  show "\<exists>re. CreateRegexMatchExprFromSet library es = Some re \<and>
         (\<forall>k. regex_search k re \<longleftrightarrow>
            (\<exists>e\<in>set es. \<exists>r. parse_regex (FindAndReplace e (CHR ''*'') ''.*'') = Some r \<and>
               (\<exists>j\<in>set (ends r k (filter (at_word_boundary k) [0 ..< Suc (length k)])).
                  at_word_boundary k j)))"
    by (rule CreateRegexMatchExprFromSet_expressions [OF read ne])
next
  assume h: "qs \<noteq> [] \<and>
    (\<forall>q\<in>set qs. \<forall>c\<in>set q. c = CHR ''*'' \<or> c = CHR ''.'' \<or> c \<notin> set syntax_characters)"
  then have ne: "qs \<noteq> []"
    and simple: "\<forall>q\<in>set qs. \<forall>c\<in>set q. c = CHR ''*'' \<or> c = CHR ''.'' \<or>
       c \<notin> set syntax_characters" by simp_all
  let ?re = "Compiled (alt_of (map pattern_regex qs))"
  have "CreateRegexMatchExprFromSet library qs = Some ?re"
    by (rule CreateRegexMatchExprFromSet_patterns [OF simple ne])
  moreover have "\<forall>k. regex_search k ?re \<longleftrightarrow>
            (\<exists>q\<in>set qs. \<exists>u w v. k = u @ w @ v \<and> at_word_boundary k (length u) \<and>
               at_word_boundary k (length u + length w) \<and> dot_star_match q w)"
    by (intro allI) (rule regex_search_patterns [OF ne])
  ultimately show "\<exists>re. CreateRegexMatchExprFromSet library qs = Some re \<and>
         (\<forall>k. regex_search k re \<longleftrightarrow>
            (\<exists>q\<in>set qs. \<exists>u w v. k = u @ w @ v \<and> at_word_boundary k (length u) \<and>
               at_word_boundary k (length u + length w) \<and> dot_star_match q w))"
    by (intro exI [of _ ?re] conjI)
qed code_simp+

theorem only_star_is_translated_witness:
  "all_regex_match_str [''a.c'', ''f[ab]''] =
     ''('' @ [backslash] @ ''ba.c'' @ [backslash] @ ''b)|('' @ [backslash] @ ''bf[ab]'' @
       [backslash] @ ''b)'' \<and>
   (\<exists>re. CreateRegexMatchExprFromSet (library_regex example_env) [''a.c''] = Some re \<and>
      regex_search ''abc'' re) \<and>
   (\<exists>re. CreateRegexMatchExprFromSet (library_regex example_env) [''f[ab]''] = Some re \<and>
      regex_search ''fa'' re)"
proof -
  note t = only_star_is_translated
  have n2: "[''f[ab]''] \<noteq> []" by simp
  have s1: "CHR ''*'' \<notin> set ''a.c''" and s2: "CHR ''*'' \<notin> set ''f[ab]''" by simp_all
  from t [THEN conjunct2, THEN conjunct2, THEN conjunct1, THEN mp, OF n2, of "''a.c''"]
    t [THEN conjunct2, THEN conjunct2, THEN conjunct2, THEN conjunct2, THEN conjunct2,
      THEN conjunct1, THEN mp, OF s1]
    t [THEN conjunct2, THEN conjunct2, THEN conjunct2, THEN conjunct2, THEN conjunct2,
      THEN conjunct1, THEN mp, OF s2]
  have str: "all_regex_match_str [''a.c'', ''f[ab]''] =
     ''('' @ [backslash] @ ''ba.c'' @ [backslash] @ ''b)|('' @ [backslash] @ ''bf[ab]'' @
       [backslash] @ ''b)''"
    by (simp only:) simp
  have h: "[''a.c''] \<noteq> [] \<and>
    (\<forall>q\<in>set [''a.c'']. \<forall>c\<in>set q. c = CHR ''*'' \<or> c = CHR ''.'' \<or>
       c \<notin> set syntax_characters)"
    by (simp add: syntax_characters_def backslash_def)
  from t [THEN conjunct2, THEN conjunct2, THEN conjunct2, THEN conjunct2,
      THEN conjunct2, THEN conjunct2, THEN conjunct2, THEN conjunct1, THEN mp, OF h,
      of "library_regex example_env"]
  obtain re where re: "CreateRegexMatchExprFromSet (library_regex example_env) [''a.c''] = Some re"
    and iff: "\<forall>k. regex_search k re \<longleftrightarrow>
            (\<exists>q\<in>set [''a.c'']. \<exists>u w v. k = u @ w @ v \<and> at_word_boundary k (length u) \<and>
               at_word_boundary k (length u + length w) \<and> dot_star_match q w)"
    by (elim exE conjE)
  have "''abc'' = [] @ ''abc'' @ [] \<and> at_word_boundary ''abc'' (length ([] :: string)) \<and>
     at_word_boundary ''abc'' (length ([] :: string) + length ''abc'') \<and>
     dot_star_match ''a.c'' ''abc''"
    by (simp add: at_word_boundary_def is_word_char_def is_line_terminator_def)
  then have "\<exists>q\<in>set [''a.c'']. \<exists>u w v. ''abc'' = u @ w @ v \<and>
     at_word_boundary ''abc'' (length u) \<and>
     at_word_boundary ''abc'' (length u + length w) \<and> dot_star_match q w"
    by (intro bexI [of _ "''a.c''"] exI [of _ "[]"] exI [of _ "''abc''"]) simp_all
  with iff have "regex_search ''abc'' re" by (simp only:)
  with re have dot: "\<exists>re. CreateRegexMatchExprFromSet (library_regex example_env) [''a.c''] =
      Some re \<and> regex_search ''abc'' re"
    by (intro exI [of _ re] conjI)
  have parsed: "parse_regex (FindAndReplace ''f[ab]'' (CHR ''*'') ''.*'') =
      Some (Seq (Chr (CHR ''f'')) (CharClass False [Single (CHR ''a''), Single (CHR ''b'')]))"
    by code_simp
  have g: "[''f[ab]''] \<noteq> [] \<and>
    (\<forall>e\<in>set [''f[ab]'']. CHR ''|'' \<notin> set e \<and>
       parse_regex (FindAndReplace e (CHR ''*'') ''.*'') \<noteq> None)"
    using parsed by simp
  from t [THEN conjunct2, THEN conjunct2, THEN conjunct2, THEN conjunct2,
      THEN conjunct2, THEN conjunct2, THEN conjunct1, THEN mp, OF g,
      of "library_regex example_env"]
  obtain re' where
    re': "CreateRegexMatchExprFromSet (library_regex example_env) [''f[ab]''] = Some re'"
    and iff': "\<forall>k. regex_search k re' \<longleftrightarrow>
            (\<exists>e\<in>set [''f[ab]'']. \<exists>r.
               parse_regex (FindAndReplace e (CHR ''*'') ''.*'') = Some r \<and>
               (\<exists>j\<in>set (ends r k (filter (at_word_boundary k) [0 ..< Suc (length k)])).
                  at_word_boundary k j))"
    by (elim exE conjE)
  have ex: "\<exists>j\<in>set (ends (Seq (Chr (CHR ''f''))
          (CharClass False [Single (CHR ''a''), Single (CHR ''b'')])) ''fa''
        (filter (at_word_boundary ''fa'') [0 ..< Suc (length ''fa'')])).
      at_word_boundary ''fa'' j"
    by code_simp
  have "\<exists>e\<in>set [''f[ab]'']. \<exists>r.
       parse_regex (FindAndReplace e (CHR ''*'') ''.*'') = Some r \<and>
       (\<exists>j\<in>set (ends r ''fa'' (filter (at_word_boundary ''fa'') [0 ..< Suc (length ''fa'')])).
          at_word_boundary ''fa'' j)"
  proof (rule bexI [where x = "''f[ab]''"])
    show "\<exists>r. parse_regex (FindAndReplace ''f[ab]'' (CHR ''*'') ''.*'') = Some r \<and>
       (\<exists>j\<in>set (ends r ''fa'' (filter (at_word_boundary ''fa'') [0 ..< Suc (length ''fa'')])).
          at_word_boundary ''fa'' j)"
    proof (intro exI conjI)
      show "parse_regex (FindAndReplace ''f[ab]'' (CHR ''*'') ''.*'') =
        Some (Seq (Chr (CHR ''f'')) (CharClass False [Single (CHR ''a''), Single (CHR ''b'')]))"
        by (rule parsed)
      show "\<exists>j\<in>set (ends (Seq (Chr (CHR ''f''))
            (CharClass False [Single (CHR ''a''), Single (CHR ''b'')])) ''fa''
          (filter (at_word_boundary ''fa'') [0 ..< Suc (length ''fa'')])).
        at_word_boundary ''fa'' j"
        by (rule ex)
    qed
    show "''f[ab]'' \<in> set [''f[ab]'']" by simp
  qed
  with iff' have "regex_search ''fa'' re'" by (simp only:)
  with re' have cls: "\<exists>re. CreateRegexMatchExprFromSet (library_regex example_env) [''f[ab]''] =
      Some re \<and> regex_search ''fa'' re"
    by (intro exI [of _ re'] conjI)
  from str dot cls show ?thesis by (intro conjI)
qed




end
